theory Spec2Isabelle
  imports Main
begin

section \<open>The data model of btree.go\<close>

text \<open>
  Keys are Go \<open>int64\<close> values. The program only compares keys (it never adds,
  subtracts or multiplies them), so a key is modelled as an \<open>int\<close> with the usual
  order. A value is a Go \<open>interface{}\<close>: \<open>None\<close> is the nil interface, \<open>Some x\<close>
  any other payload. The zero item \<open>item{}\<close> is key 0 with the nil value.
\<close>

definition maxItems :: nat where
  "maxItems = 31"

definition minItems :: nat where
  "minItems = maxItems * 40 div 100"

definition freeKey :: int where
  "freeKey = - (2 ^ 63 - 1)"

datatype 'v item = Item (key: int) (val: "'v option")

definition zero_item :: "'v item" where
  "zero_item = Item 0 None"

text \<open>
  A Go node is \<open>numItems\<close>, an array of \<open>maxItems\<close> items and an array of
  \<open>maxItems + 1\<close> child pointers. No function of the program reads an item slot at
  or beyond \<open>numItems\<close>, or a child slot beyond \<open>numItems\<close>, before writing it. The
  model keeps the slots in use: \<open>items n\<close> is \<open>n.items[0 .. numItems)\<close>, so that
  \<open>numItems\<close> is its length, and \<open>children n\<close> is the list of the non-nil child
  pointers \<open>n.children[0 ..]\<close>: empty for a leaf, whose child pointers are all nil.
  Child nodes are owned by exactly one parent slot, so a pointer is modelled by the node
  it points to, and an update in place by returning the updated node.

  Every function that can panic returns an \<open>option\<close>: \<open>None\<close> is a run that panics
  (a nil pointer dereferenced, an index outside an array) or that would need a node the
  model cannot hold (more items than the array has slots).
\<close>

datatype 'v node = Node (items: "'v item list") (children: "'v node list")

definition numItems :: "'v node \<Rightarrow> nat" where
  "numItems n = length (items n)"

text \<open>\<open>n.children[i]\<close>, about to be dereferenced: \<open>None\<close> is the nil pointer.\<close>

definition child :: "'v node \<Rightarrow> nat \<Rightarrow> 'v node option" where
  "child n i = (if i < length (children n) then Some (children n ! i) else None)"

text \<open>
  The tree handle. \<open>height\<close> is a Go \<open>int\<close> that the program keeps at 0 or above
  (see \<open>Delete\<close> for the one place where it could leave that range); \<open>len\<close> is
  the field \<open>length\<close>.
\<close>

record 'v BTree =
  height :: nat
  root :: "'v node option"
  len :: int

definition empty_tree :: "'v BTree" where
  "empty_tree = \<lparr>height = 0, root = None, len = 0\<rparr>"

section \<open>Search inside a node\<close>

text \<open>The binary search loop of \<open>find\<close>, on the pair \<open>i, j\<close>.\<close>

function find_loop :: "'v item list \<Rightarrow> int \<Rightarrow> nat \<Rightarrow> nat \<Rightarrow> nat" where
  "find_loop its k i j =
     (if i < j then
        (let h = i + (j - i) div 2 in
         if k \<ge> key (its ! h) then find_loop its k (h + 1) j
         else find_loop its k i h)
      else i)"
  by pat_completeness auto
termination
  by (relation "measure (\<lambda>(its, k, i, j). j - i)") auto

declare find_loop.simps [simp del]

definition find_node :: "'v node \<Rightarrow> int \<Rightarrow> nat \<times> bool" where
  "find_node n k =
     (let i = find_loop (items n) k 0 (numItems n) in
      if i > 0 \<and> key (items n ! (i - 1)) \<ge> k then (i - 1, True) else (i, False))"

section \<open>Set\<close>

text \<open>
  \<open>split\<close> is called on a node with \<open>maxItems\<close> items. The receiver keeps the items
  before the median, the new right node takes those after it; the children move with
  them when \<open>height > 0\<close>. The result is (receiver, right, median).
\<close>

definition split_node :: "'v node \<Rightarrow> nat \<Rightarrow> 'v node \<times> 'v node \<times> 'v item" where
  "split_node n h =
     (let m = maxItems div 2 in
      (Node (take m (items n)) (if h > 0 then take (m + 1) (children n) else children n),
       Node (take m (drop (m + 1) (items n)))
            (if h > 0 then take (m + 1) (drop (m + 1) (children n)) else []),
       items n ! m))"

text \<open>
  \<open>node.set\<close>: the result is the updated receiver, \<open>prev\<close> and \<open>replaced\<close>.
  Inserting writes the slot \<open>numItems\<close>, which a full array does not have.
\<close>

definition insert_at :: "nat \<Rightarrow> 'a \<Rightarrow> 'a list \<Rightarrow> 'a list" where
  "insert_at i x xs = take i xs @ x # drop i xs"

fun set_node :: "'v node \<Rightarrow> int \<Rightarrow> 'v option \<Rightarrow> nat \<Rightarrow> ('v node \<times> 'v option \<times> bool) option" where
  "set_node n k v 0 =
     (case find_node n k of
        (i, True) \<Rightarrow>
          Some (Node ((items n)[i := Item (key (items n ! i)) v]) (children n),
                val (items n ! i), True)
      | (i, False) \<Rightarrow>
          if numItems n < maxItems
          then Some (Node (insert_at i (Item k v) (items n)) (children n), None, False)
          else None)"
| "set_node n k v (Suc h) =
     (case find_node n k of
        (i, True) \<Rightarrow>
          Some (Node ((items n)[i := Item (key (items n ! i)) v]) (children n),
                val (items n ! i), True)
      | (i, False) \<Rightarrow>
          (case child n i of
             None \<Rightarrow> None
           | Some c \<Rightarrow>
               (case set_node c k v h of
                  None \<Rightarrow> None
                | Some (c', prev, replaced) \<Rightarrow>
                    if replaced then Some (Node (items n) ((children n)[i := c']), prev, True)
                    else if numItems c' = maxItems then
                      (case split_node c' h of
                         (l, right, median) \<Rightarrow>
                           if numItems n < maxItems
                           then Some (Node (insert_at i median (items n))
                                        (insert_at (i + 1) right ((children n)[i := l])),
                                      prev, False)
                           else None)
                    else Some (Node (items n) ((children n)[i := c']), prev, False))))"

text \<open>\<open>BTree.Set\<close>: the result is the updated handle, \<open>prev\<close> and \<open>replaced\<close>.\<close>

definition Set :: "'v BTree \<Rightarrow> int \<Rightarrow> 'v option \<Rightarrow> ('v BTree \<times> 'v option \<times> bool) option" where
  "Set tr k v =
     (case root tr of
        None \<Rightarrow> Some (tr\<lparr>root := Some (Node [Item k v] []), len := 1\<rparr>, None, False)
      | Some r \<Rightarrow>
          (case set_node r k v (height tr) of
             None \<Rightarrow> None
           | Some (r', prev, replaced) \<Rightarrow>
               if replaced then Some (tr\<lparr>root := Some r'\<rparr>, prev, True)
               else if numItems r' = maxItems then
                 (case split_node r' (height tr) of
                    (l, right, median) \<Rightarrow>
                      Some (tr\<lparr>root := Some (Node [median] [l, right]),
                                height := height tr + 1, len := len tr + 1\<rparr>, prev, False))
               else Some (tr\<lparr>root := Some r', len := len tr + 1\<rparr>, prev, False)))"

section \<open>Get and Len\<close>

fun get_node :: "'v node \<Rightarrow> int \<Rightarrow> nat \<Rightarrow> ('v option \<times> bool) option" where
  "get_node n k 0 =
     (case find_node n k of
        (i, True) \<Rightarrow> Some (val (items n ! i), True)
      | (i, False) \<Rightarrow> Some (None, False))"
| "get_node n k (Suc h) =
     (case find_node n k of
        (i, True) \<Rightarrow> Some (val (items n ! i), True)
      | (i, False) \<Rightarrow>
          (case child n i of None \<Rightarrow> None | Some c \<Rightarrow> get_node c k h))"

definition Get :: "'v BTree \<Rightarrow> int \<Rightarrow> ('v option \<times> bool) option" where
  "Get tr k = (case root tr of None \<Rightarrow> Some (None, False) | Some r \<Rightarrow> get_node r k (height tr))"


section \<open>GetOrNearest\<close>

text \<open>
  \<open>node.getOrNearest\<close>. At \<open>height = 0\<close> with no exact match and \<open>i = 0\<close> the Go code
  leaves both \<open>if\<close> blocks and reaches its last line,
  \<open>n.children[i].getOrNearest(key, height-1)\<close>: the receiver of that call is the
  child pointer of a leaf, which is nil, and \<open>find\<close> dereferences it.
\<close>

fun getOrNearest_node :: "'v node \<Rightarrow> int \<Rightarrow> nat \<Rightarrow> (int \<times> 'v option) option" where
  "getOrNearest_node n k 0 =
     (case find_node n k of
        (i, True) \<Rightarrow> Some (key (items n ! i), val (items n ! i))
      | (i, False) \<Rightarrow>
          if i > 0 then Some (key (items n ! (i - 1)), val (items n ! (i - 1)))
          else None)"
| "getOrNearest_node n k (Suc 0) =
     (case find_node n k of
        (i, True) \<Rightarrow> Some (key (items n ! i), val (items n ! i))
      | (i, False) \<Rightarrow>
          (case child n i of
             None \<Rightarrow> None
           | Some c \<Rightarrow>
               (case find_node c k of
                  (ci, True) \<Rightarrow> Some (key (items c ! ci), val (items c ! ci))
                | (ci, False) \<Rightarrow>
                    if ci > 0 then Some (key (items c ! (ci - 1)), val (items c ! (ci - 1)))
                    else if i > 0 then Some (key (items n ! (i - 1)), val (items n ! (i - 1)))
                    else Some (0, None))))"
| "getOrNearest_node n k (Suc (Suc h)) =
     (case find_node n k of
        (i, True) \<Rightarrow> Some (key (items n ! i), val (items n ! i))
      | (i, False) \<Rightarrow>
          (case child n i of None \<Rightarrow> None | Some c \<Rightarrow> getOrNearest_node c k (Suc h)))"

definition GetOrNearest :: "'v BTree \<Rightarrow> int \<Rightarrow> (int \<times> 'v option) option" where
  "GetOrNearest tr k =
     (case root tr of None \<Rightarrow> Some (0, None) | Some r \<Rightarrow> getOrNearest_node r k (height tr))"

section \<open>Delete\<close>

definition remove_at :: "nat \<Rightarrow> 'a list \<Rightarrow> 'a list" where
  "remove_at i xs = take i xs @ drop (i + 1) xs"

text \<open>
  The three repairs of \<open>node.delete\<close>, on the parent \<open>n\<close> (at height \<open>h\<close>), its children
  \<open>l = n.children[i]\<close> and \<open>r = n.children[i+1]\<close>.

  "merge left + item + right". The Go code ends with \<open>n.items[n.numItems] = item{}\<close>,
  an index outside the array when the parent is full.
\<close>

definition merge_children :: "'v node \<Rightarrow> 'v node \<Rightarrow> 'v node \<Rightarrow> nat \<Rightarrow> nat \<Rightarrow> 'v node option" where
  "merge_children n l r i h =
     (if numItems n < maxItems then
        Some (Node (remove_at i (items n))
                (remove_at (i + 1)
                   ((children n)[i := Node (items l @ items n ! i # items r)
                                        (if h > 1 then children l @ children r else children l)])))
      else None)"

text \<open>"move left -> right": the last item (and child) of \<open>l\<close> goes through the parent to the front of \<open>r\<close>.\<close>

definition move_left_right :: "'v node \<Rightarrow> 'v node \<Rightarrow> 'v node \<Rightarrow> nat \<Rightarrow> nat \<Rightarrow> 'v node option" where
  "move_left_right n l r i h =
     (if h > 1 then
        (case child l (numItems l) of
           None \<Rightarrow> None
         | Some c \<Rightarrow>
             Some (Node ((items n)[i := items l ! (numItems l - 1)])
                     ((children n)[i := Node (take (numItems l - 1) (items l))
                                          (take (numItems l) (children l)),
                                   i + 1 := Node (items n ! i # items r) (c # children r)])))
      else
        Some (Node ((items n)[i := items l ! (numItems l - 1)])
                ((children n)[i := Node (take (numItems l - 1) (items l)) (children l),
                              i + 1 := Node (items n ! i # items r) (children r)])))"

text \<open>
  "move right -> left": the first item (and child) of \<open>r\<close> goes through the parent to the end of \<open>l\<close>.
  \<open>l.items[l.numItems]\<close> is outside the array when \<open>l\<close> is full, and the slice
  \<open>r.items[1:r.numItems]\<close> panics when \<open>r\<close> is empty.
\<close>

definition move_right_left :: "'v node \<Rightarrow> 'v node \<Rightarrow> 'v node \<Rightarrow> nat \<Rightarrow> nat \<Rightarrow> 'v node option" where
  "move_right_left n l r i h =
     (if numItems l < maxItems \<and> numItems r > 0 then
        (if h > 1 then
           (case child r 0 of
              None \<Rightarrow> None
            | Some c \<Rightarrow>
                Some (Node ((items n)[i := items r ! 0])
                        ((children n)[i := Node (items l @ [items n ! i]) (children l @ [c]),
                                      i + 1 := Node (drop 1 (items r)) (drop 1 (children r))])))
         else
           Some (Node ((items n)[i := items r ! 0])
                   ((children n)[i := Node (items l @ [items n ! i]) (children l),
                                 i + 1 := Node (drop 1 (items r)) (children r)])))
      else None)"

text \<open>
  The tail of \<open>node.delete\<close> after a successful recursive call into \<open>n.children[i]\<close>:
  if that child has fewer than \<open>minItems\<close> items, repair it with a neighbour. When
  \<open>i = numItems\<close> the Go code decrements \<open>i\<close>; at \<open>numItems = 0\<close> that is index -1.
\<close>

definition rebalance :: "'v node \<Rightarrow> nat \<Rightarrow> nat \<Rightarrow> 'v node option" where
  "rebalance n i h =
     (case child n i of
        None \<Rightarrow> None
      | Some c \<Rightarrow>
          if numItems c < minItems then
            (if i = numItems n \<and> i = 0 then None
             else
               (let i = (if i = numItems n then i - 1 else i) in
                case child n i of
                  None \<Rightarrow> None
                | Some l \<Rightarrow>
                    (case child n (i + 1) of
                       None \<Rightarrow> None
                     | Some r \<Rightarrow>
                         if numItems l + numItems r + 1 < maxItems then merge_children n l r i h
                         else if numItems l > numItems r then move_left_right n l r i h
                         else move_right_left n l r i h)))
          else Some n)"

text \<open>
  \<open>node.delete\<close>: the result is the updated receiver, \<open>prev\<close> and \<open>deleted\<close>. With
  \<open>max\<close> set, the search is skipped and the index is \<open>numItems - 1\<close>: at a leaf that
  is index -1 when the node is empty, at an inner node the call goes to the last child,
  \<open>n.children[numItems]\<close>.
\<close>

fun delete_node :: "'v node \<Rightarrow> bool \<Rightarrow> int \<Rightarrow> nat \<Rightarrow> ('v node \<times> 'v item \<times> bool) option" where
  "delete_node n mx k 0 =
     (if mx then
        (if numItems n = 0 then None
         else Some (Node (remove_at (numItems n - 1) (items n)) (children n),
                    items n ! (numItems n - 1), True))
      else
        (case find_node n k of
           (i, True) \<Rightarrow> Some (Node (remove_at i (items n)) (children n), items n ! i, True)
         | (i, False) \<Rightarrow> Some (n, zero_item, False)))"
| "delete_node n mx k (Suc h) =
     (if mx then
        (case child n (numItems n) of
           None \<Rightarrow> None
         | Some c \<Rightarrow>
             (case delete_node c True freeKey h of
                None \<Rightarrow> None
              | Some (c', prev, deleted) \<Rightarrow>
                  if \<not> deleted
                  then Some (Node (items n) ((children n)[numItems n := c']), prev, False)
                  else (case rebalance (Node (items n) ((children n)[numItems n := c']))
                               (numItems n) (Suc h) of
                          None \<Rightarrow> None
                        | Some n' \<Rightarrow> Some (n', prev, True))))
      else
        (case find_node n k of
           (i, True) \<Rightarrow>
             (case child n i of
                None \<Rightarrow> None
              | Some c \<Rightarrow>
                  (case delete_node c True freeKey h of
                     None \<Rightarrow> None
                   | Some (c', maxItem, _) \<Rightarrow>
                       (case rebalance (Node ((items n)[i := maxItem]) ((children n)[i := c']))
                               i (Suc h) of
                          None \<Rightarrow> None
                        | Some n' \<Rightarrow> Some (n', items n ! i, True))))
         | (i, False) \<Rightarrow>
             (case child n i of
                None \<Rightarrow> None
              | Some c \<Rightarrow>
                  (case delete_node c mx k h of
                     None \<Rightarrow> None
                   | Some (c', prev, deleted) \<Rightarrow>
                       if \<not> deleted
                       then Some (Node (items n) ((children n)[i := c']), prev, False)
                       else (case rebalance (Node (items n) ((children n)[i := c'])) i (Suc h) of
                               None \<Rightarrow> None
                             | Some n' \<Rightarrow> Some (n', prev, True))))))"

text \<open>
  \<open>BTree.Delete\<close>: the result is the updated handle, \<open>prev\<close> and \<open>deleted\<close>. An
  emptied root is replaced by \<open>root.children[0]\<close> (nil for a leaf) and \<open>height\<close> is
  decremented. At height 0 that gives -1, which the last \<open>if\<close> resets to 0 when the
  length has reached 0; otherwise the handle would keep height -1, which the model does
  not hold.
\<close>

definition Delete :: "'v BTree \<Rightarrow> int \<Rightarrow> ('v BTree \<times> 'v option \<times> bool) option" where
  "Delete tr k =
     (case root tr of
        None \<Rightarrow> Some (tr, None, False)
      | Some r \<Rightarrow>
          (case delete_node r False k (height tr) of
             None \<Rightarrow> None
           | Some (r', prevItem, deleted) \<Rightarrow>
               if \<not> deleted then Some (tr\<lparr>root := Some r'\<rparr>, None, False)
               else
                 (let shrink = (numItems r' = 0);
                      root1 = (if shrink then child r' 0 else Some r');
                      length1 = len tr - 1
                  in if length1 = 0
                     then Some (tr\<lparr>root := None, height := 0, len := length1\<rparr>,
                                val prevItem, True)
                     else if shrink \<and> height tr = 0 then None
                     else Some (tr\<lparr>root := root1,
                                   height := (if shrink then height tr - 1 else height tr),
                                   len := length1\<rparr>, val prevItem, True))))"

section \<open>Traversals\<close>

text \<open>
  The visitor \<open>iter\<close> is a Go closure: it may keep state of its own between calls. It
  is modelled as a function from key, value and its state to the answer (continue or
  stop) and its next state. A traversal returns the \<open>bool\<close> the Go method returns and the
  visitor's final state.
\<close>

type_synonym ('v, 's) visitor = "int \<Rightarrow> 'v option \<Rightarrow> 's \<Rightarrow> bool \<times> 's"

text \<open>The loop of \<open>scan\<close> at \<open>height = 0\<close>, from index \<open>i\<close>.\<close>

function scan_leaf :: "('v, 's) visitor \<Rightarrow> 'v node \<Rightarrow> nat \<Rightarrow> 's \<Rightarrow> bool \<times> 's" where
  "scan_leaf iter n i s =
     (if i < numItems n then
        (case iter (key (items n ! i)) (val (items n ! i)) s of
           (False, s') \<Rightarrow> (False, s')
         | (True, s') \<Rightarrow> scan_leaf iter n (i + 1) s')
      else (True, s))"
  by pat_completeness auto
termination
  by (relation "measure (\<lambda>(iter, n, i, s). numItems n - i)") auto

declare scan_leaf.simps [simp del]

text \<open>
  The loop of \<open>scan\<close> at \<open>height > 0\<close>, from index \<open>i\<close>, followed by the walk of the
  last child; \<open>rec\<close> is \<open>scan\<close> one level down.
\<close>

function scan_inner :: "('v node \<Rightarrow> 's \<Rightarrow> (bool \<times> 's) option) \<Rightarrow> ('v, 's) visitor \<Rightarrow>
    'v node \<Rightarrow> nat \<Rightarrow> 's \<Rightarrow> (bool \<times> 's) option" where
  "scan_inner rec iter n i s =
     (if i < numItems n then
        (case child n i of
           None \<Rightarrow> None
         | Some c \<Rightarrow>
             (case rec c s of
                None \<Rightarrow> None
              | Some (False, s') \<Rightarrow> Some (False, s')
              | Some (True, s') \<Rightarrow>
                  (case iter (key (items n ! i)) (val (items n ! i)) s' of
                     (False, s'') \<Rightarrow> Some (False, s'')
                   | (True, s'') \<Rightarrow> scan_inner rec iter n (i + 1) s'')))
      else
        (case child n (numItems n) of None \<Rightarrow> None | Some c \<Rightarrow> rec c s))"
  by pat_completeness auto
termination
  by (relation "measure (\<lambda>(rec, iter, n, i, s). numItems n - i)") auto

declare scan_inner.simps [simp del]

fun scan_node :: "('v, 's) visitor \<Rightarrow> 'v node \<Rightarrow> nat \<Rightarrow> 's \<Rightarrow> (bool \<times> 's) option" where
  "scan_node iter n 0 s = Some (scan_leaf iter n 0 s)"
| "scan_node iter n (Suc h) s = scan_inner (\<lambda>c. scan_node iter c h) iter n 0 s"

text \<open>\<open>BTree.Scan\<close> returns nothing; the result is the visitor's final state.\<close>

definition Scan :: "'v BTree \<Rightarrow> ('v, 's) visitor \<Rightarrow> 's \<Rightarrow> 's option" where
  "Scan tr iter s =
     (case root tr of
        None \<Rightarrow> Some s
      | Some r \<Rightarrow> map_option snd (scan_node iter r (height tr) s))"

text \<open>
  The loops of \<open>reverse\<close> run from \<open>numItems - 1\<close> down to 0; the argument \<open>j\<close> is the
  Go index plus one, so that the loop ends at \<open>j = 0\<close>.
\<close>

fun reverse_leaf :: "('v, 's) visitor \<Rightarrow> 'v node \<Rightarrow> nat \<Rightarrow> 's \<Rightarrow> bool \<times> 's" where
  "reverse_leaf iter n 0 s = (True, s)"
| "reverse_leaf iter n (Suc i) s =
     (case iter (key (items n ! i)) (val (items n ! i)) s of
        (False, s') \<Rightarrow> (False, s')
      | (True, s') \<Rightarrow> reverse_leaf iter n i s')"

fun reverse_inner :: "('v node \<Rightarrow> 's \<Rightarrow> (bool \<times> 's) option) \<Rightarrow> ('v, 's) visitor \<Rightarrow>
    'v node \<Rightarrow> nat \<Rightarrow> 's \<Rightarrow> (bool \<times> 's) option" where
  "reverse_inner rec iter n 0 s = Some (True, s)"
| "reverse_inner rec iter n (Suc i) s =
     (case iter (key (items n ! i)) (val (items n ! i)) s of
        (False, s') \<Rightarrow> Some (False, s')
      | (True, s') \<Rightarrow>
          (case child n i of
             None \<Rightarrow> None
           | Some c \<Rightarrow>
               (case rec c s' of
                  None \<Rightarrow> None
                | Some (False, s'') \<Rightarrow> Some (False, s'')
                | Some (True, s'') \<Rightarrow> reverse_inner rec iter n i s'')))"

fun reverse_node :: "('v, 's) visitor \<Rightarrow> 'v node \<Rightarrow> nat \<Rightarrow> 's \<Rightarrow> (bool \<times> 's) option" where
  "reverse_node iter n 0 s = Some (reverse_leaf iter n (numItems n) s)"
| "reverse_node iter n (Suc h) s =
     (case child n (numItems n) of
        None \<Rightarrow> None
      | Some c \<Rightarrow>
          (case reverse_node iter c h s of
             None \<Rightarrow> None
           | Some (False, s') \<Rightarrow> Some (False, s')
           | Some (True, s') \<Rightarrow>
               reverse_inner (\<lambda>c. reverse_node iter c h) iter n (numItems n) s'))"

definition Reverse :: "'v BTree \<Rightarrow> ('v, 's) visitor \<Rightarrow> 's \<Rightarrow> 's option" where
  "Reverse tr iter s =
     (case root tr of
        None \<Rightarrow> Some s
      | Some r \<Rightarrow> map_option snd (reverse_node iter r (height tr) s))"

text \<open>
  The loop of \<open>ascend\<close> from index \<open>i\<close>: the item, then (when \<open>height > 0\<close>, the flag
  \<open>inner\<close>) a full \<open>scan\<close> of the child to its right.
\<close>

function ascend_loop :: "bool \<Rightarrow> ('v node \<Rightarrow> 's \<Rightarrow> (bool \<times> 's) option) \<Rightarrow> ('v, 's) visitor \<Rightarrow>
    'v node \<Rightarrow> nat \<Rightarrow> 's \<Rightarrow> (bool \<times> 's) option" where
  "ascend_loop inner rec iter n i s =
     (if i < numItems n then
        (case iter (key (items n ! i)) (val (items n ! i)) s of
           (False, s') \<Rightarrow> Some (False, s')
         | (True, s') \<Rightarrow>
             if inner then
               (case child n (i + 1) of
                  None \<Rightarrow> None
                | Some c \<Rightarrow>
                    (case rec c s' of
                       None \<Rightarrow> None
                     | Some (False, s'') \<Rightarrow> Some (False, s'')
                     | Some (True, s'') \<Rightarrow> ascend_loop inner rec iter n (i + 1) s''))
             else ascend_loop inner rec iter n (i + 1) s')
      else Some (True, s))"
  by pat_completeness auto
termination
  by (relation "measure (\<lambda>(inner, rec, iter, n, i, s). numItems n - i)") auto

declare ascend_loop.simps [simp del]

fun ascend_node :: "int \<Rightarrow> ('v, 's) visitor \<Rightarrow> 'v node \<Rightarrow> nat \<Rightarrow> 's \<Rightarrow> (bool \<times> 's) option" where
  "ascend_node pivot iter n 0 s =
     (case find_node n pivot of
        (i, found) \<Rightarrow> ascend_loop False (\<lambda>c s. None) iter n i s)"
| "ascend_node pivot iter n (Suc h) s =
     (case find_node n pivot of
        (i, True) \<Rightarrow> ascend_loop True (\<lambda>c. scan_node iter c h) iter n i s
      | (i, False) \<Rightarrow>
          (case child n i of
             None \<Rightarrow> None
           | Some c \<Rightarrow>
               (case ascend_node pivot iter c h s of
                  None \<Rightarrow> None
                | Some (False, s') \<Rightarrow> Some (False, s')
                | Some (True, s') \<Rightarrow>
                    ascend_loop True (\<lambda>c. scan_node iter c h) iter n i s')))"

definition Ascend :: "'v BTree \<Rightarrow> int \<Rightarrow> ('v, 's) visitor \<Rightarrow> 's \<Rightarrow> 's option" where
  "Ascend tr pivot iter s =
     (case root tr of
        None \<Rightarrow> Some s
      | Some r \<Rightarrow> map_option snd (ascend_node pivot iter r (height tr) s))"

text \<open>
  The loop of \<open>descend\<close>, downwards; \<open>j\<close> is the Go index plus one. Each step visits the
  item and then (when \<open>height > 0\<close>) runs \<open>reverse\<close> on the child to its left.
\<close>

fun descend_loop :: "bool \<Rightarrow> ('v node \<Rightarrow> 's \<Rightarrow> (bool \<times> 's) option) \<Rightarrow> ('v, 's) visitor \<Rightarrow>
    'v node \<Rightarrow> nat \<Rightarrow> 's \<Rightarrow> (bool \<times> 's) option" where
  "descend_loop inner rec iter n 0 s = Some (True, s)"
| "descend_loop inner rec iter n (Suc i) s =
     (case iter (key (items n ! i)) (val (items n ! i)) s of
        (False, s') \<Rightarrow> Some (False, s')
      | (True, s') \<Rightarrow>
          if inner then
            (case child n i of
               None \<Rightarrow> None
             | Some c \<Rightarrow>
                 (case rec c s' of
                    None \<Rightarrow> None
                  | Some (False, s'') \<Rightarrow> Some (False, s'')
                  | Some (True, s'') \<Rightarrow> descend_loop inner rec iter n i s''))
          else descend_loop inner rec iter n i s')"

text \<open>
  \<open>descend\<close>: after an exact match the loop starts at \<open>i\<close> (so \<open>j = i + 1\<close>); otherwise
  the child \<open>i\<close> is descended first and the loop starts at \<open>i - 1\<close> (so \<open>j = i\<close>).
\<close>

fun descend_node :: "int \<Rightarrow> ('v, 's) visitor \<Rightarrow> 'v node \<Rightarrow> nat \<Rightarrow> 's \<Rightarrow> (bool \<times> 's) option" where
  "descend_node pivot iter n 0 s =
     (case find_node n pivot of
        (i, True) \<Rightarrow> descend_loop False (\<lambda>c s. None) iter n (i + 1) s
      | (i, False) \<Rightarrow> descend_loop False (\<lambda>c s. None) iter n i s)"
| "descend_node pivot iter n (Suc h) s =
     (case find_node n pivot of
        (i, True) \<Rightarrow> descend_loop True (\<lambda>c. reverse_node iter c h) iter n (i + 1) s
      | (i, False) \<Rightarrow>
          (case child n i of
             None \<Rightarrow> None
           | Some c \<Rightarrow>
               (case descend_node pivot iter c h s of
                  None \<Rightarrow> None
                | Some (False, s') \<Rightarrow> Some (False, s')
                | Some (True, s') \<Rightarrow>
                    descend_loop True (\<lambda>c. reverse_node iter c h) iter n i s')))"

definition Descend :: "'v BTree \<Rightarrow> int \<Rightarrow> ('v, 's) visitor \<Rightarrow> 's \<Rightarrow> 's option" where
  "Descend tr pivot iter s =
     (case root tr of
        None \<Rightarrow> Some s
      | Some r \<Rightarrow> map_option snd (descend_node pivot iter r (height tr) s))"

definition GreaterOrEqual :: "'v BTree \<Rightarrow> int \<Rightarrow> ('v, 's) visitor \<Rightarrow> 's \<Rightarrow> 's option" where
  "GreaterOrEqual tr pivot iter s =
     (case root tr of
        None \<Rightarrow> Some s
      | Some r \<Rightarrow> map_option snd (ascend_node pivot iter r (height tr) s))"

definition LessOrEqual :: "'v BTree \<Rightarrow> int \<Rightarrow> ('v, 's) visitor \<Rightarrow> 's \<Rightarrow> 's option" where
  "LessOrEqual tr pivot iter s =
     (case root tr of
        None \<Rightarrow> Some s
      | Some r \<Rightarrow> map_option snd (descend_node pivot iter r (height tr) s))"

text \<open>
  The closure of \<open>Next\<close> and \<open>Prev\<close>: its state is the counter \<open>i\<close> and the results
  \<open>key\<close> and \<open>value\<close>, which start at 0, 0 and nil.
\<close>

definition second_iter :: "('v, int \<times> int \<times> 'v option) visitor" where
  "second_iter k v st =
     (case st of (i, rkey, rvalue) \<Rightarrow>
        if i = 1 then (False, (i, k, v)) else (True, (i + 1, rkey, rvalue)))"

definition Next :: "'v BTree \<Rightarrow> int \<Rightarrow> (int \<times> 'v option) option" where
  "Next tr pivot = map_option snd (GreaterOrEqual tr pivot second_iter (0, 0, None))"

definition Prev :: "'v BTree \<Rightarrow> int \<Rightarrow> (int \<times> 'v option) option" where
  "Prev tr pivot = map_option snd (LessOrEqual tr pivot second_iter (0, 0, None))"

section \<open>Abstraction and invariants\<close>

text \<open>
  The entries of a subtree in key order, read off the way \<open>scan\<close> walks it: at height 0
  the items; above, the entries of the first child, then each item followed by the
  entries of the child to its right. \<open>glue\<close> pairs each item with the child after it,
  \<open>lead\<close> pairs each child with the item after it.
\<close>

fun glue :: "'a list \<Rightarrow> 'a list list \<Rightarrow> 'a list" where
  "glue (x # xs) (c # cs) = x # c @ glue xs cs"
| "glue xs cs = []"

fun lead :: "'a list list \<Rightarrow> 'a list \<Rightarrow> 'a list" where
  "lead (c # cs) (x # xs) = c @ x # lead cs xs"
| "lead cs xs = []"

fun inter :: "'a list list \<Rightarrow> 'a list \<Rightarrow> 'a list" where
  "inter [] xs = []"
| "inter (c # cs) xs = c @ glue xs cs"

fun inorder :: "nat \<Rightarrow> 'v node \<Rightarrow> 'v item list" where
  "inorder 0 n = items n"
| "inorder (Suc h) n = inter (map (inorder h) (children n)) (items n)"

definition ksorted :: "'v item list \<Rightarrow> bool" where
  "ksorted xs = sorted_wrt (<) (map key xs)"

text \<open>
  The shape of a subtree whose root is at height \<open>h\<close>: a node at height 0 has no
  children; a node above has one child more than items, and each child is a well-shaped
  subtree one level down that holds at least \<open>minItems\<close> and fewer than \<open>maxItems\<close>
  items. The number of items of the root of the subtree is left open.
\<close>

fun shape :: "nat \<Rightarrow> 'v node \<Rightarrow> bool" where
  "shape 0 n = (children n = [])"
| "shape (Suc h) n =
     (length (children n) = numItems n + 1 \<and>
      (\<forall>c \<in> set (children n). minItems \<le> numItems c \<and> numItems c < maxItems \<and> shape h c))"

text \<open>
  The invariant of a tree handle: an absent root goes with height 0 and length 0; a root
  is a well-shaped subtree at the handle's height with at least one item and fewer than
  \<open>maxItems\<close>, its entries are strictly increasing in key, and \<open>len\<close> counts them.
\<close>

definition tree_inv :: "'v BTree \<Rightarrow> bool" where
  "tree_inv tr =
     (case root tr of
        None \<Rightarrow> height tr = 0 \<and> len tr = 0
      | Some r \<Rightarrow>
          shape (height tr) r \<and> 1 \<le> numItems r \<and> numItems r < maxItems \<and>
          ksorted (inorder (height tr) r) \<and> len tr = int (length (inorder (height tr) r)))"

text \<open>The entries of a tree, in the order of a full walk.\<close>

definition entries :: "'v BTree \<Rightarrow> 'v item list" where
  "entries tr = (case root tr of None \<Rightarrow> [] | Some r \<Rightarrow> inorder (height tr) r)"

text \<open>Insertion, deletion and lookup in a list of items sorted by key.\<close>

fun upd_list :: "int \<Rightarrow> 'v option \<Rightarrow> 'v item list \<Rightarrow> 'v item list" where
  "upd_list k v [] = [Item k v]"
| "upd_list k v (x # xs) =
     (if k < key x then Item k v # x # xs
      else if k = key x then Item k v # xs
      else x # upd_list k v xs)"

fun del_list :: "int \<Rightarrow> 'v item list \<Rightarrow> 'v item list" where
  "del_list k [] = []"
| "del_list k (x # xs) = (if key x = k then xs else x # del_list k xs)"

fun lookup :: "'v item list \<Rightarrow> int \<Rightarrow> 'v option option" where
  "lookup [] k = None"
| "lookup (x # xs) k = (if key x = k then Some (val x) else lookup xs k)"

text \<open>
  Calling a visitor on the items of a list in turn until it answers false: the result is
  whether the walk ran to the end, and the visitor's final state.
\<close>

fun visit :: "('v, 's) visitor \<Rightarrow> 'v item list \<Rightarrow> 's \<Rightarrow> bool \<times> 's" where
  "visit iter [] s = (True, s)"
| "visit iter (x # xs) s =
     (case iter (key x) (val x) s of
        (False, s') \<Rightarrow> (False, s')
      | (True, s') \<Rightarrow> visit iter xs s')"

section \<open>Postconditions of the recursive calls\<close>

text \<open>
  What \<open>node.set\<close> and \<open>node.delete\<close> establish on a subtree, as they are used in the
  proofs below: the call returns, the subtree keeps its shape, its entries change as in
  the sorted list, and the root of the subtree gains or loses at most one item.
\<close>

definition set_post :: "nat \<Rightarrow> 'v node \<Rightarrow> int \<Rightarrow> 'v option \<Rightarrow> ('v node \<times> 'v option \<times> bool) option \<Rightarrow> bool" where
  "set_post h n k v res =
     (case res of
        None \<Rightarrow> False
      | Some (n', prev, rep) \<Rightarrow>
          shape h n' \<and> inorder h n' = upd_list k v (inorder h n) \<and>
          rep = (k \<in> key ` set (inorder h n)) \<and>
          prev = (case lookup (inorder h n) k of None \<Rightarrow> None | Some w \<Rightarrow> w) \<and>
          numItems n \<le> numItems n' \<and> numItems n' \<le> Suc (numItems n) \<and>
          (rep \<longrightarrow> numItems n' = numItems n))"

definition delmax_post :: "nat \<Rightarrow> 'v node \<Rightarrow> ('v node \<times> 'v item \<times> bool) option \<Rightarrow> bool" where
  "delmax_post h n res =
     (case res of
        None \<Rightarrow> False
      | Some (n', prev, deleted) \<Rightarrow>
          deleted \<and> shape h n' \<and> inorder h n = inorder h n' @ [prev] \<and>
          numItems n' \<le> numItems n \<and> numItems n \<le> Suc (numItems n'))"

definition del_post :: "nat \<Rightarrow> 'v node \<Rightarrow> int \<Rightarrow> ('v node \<times> 'v item \<times> bool) option \<Rightarrow> bool" where
  "del_post h n k res =
     (case res of
        None \<Rightarrow> False
      | Some (n', prev, deleted) \<Rightarrow>
          deleted = (k \<in> key ` set (inorder h n)) \<and>
          (if deleted
           then shape h n' \<and> inorder h n' = del_list k (inorder h n) \<and>
                lookup (inorder h n) k = Some (val prev) \<and>
                numItems n' \<le> numItems n \<and> numItems n \<le> Suc (numItems n')
           else n' = n \<and> prev = zero_item))"

section \<open>Sequences of operations\<close>

text \<open>
  A sequence of \<open>Set\<close> and \<open>Delete\<close> calls on a handle, and the finite map from keys
  to values that the same sequence describes.
\<close>

datatype 'v op = SetOp int "'v option" | DeleteOp int

fun apply_op :: "'v BTree \<Rightarrow> 'v op \<Rightarrow> 'v BTree option" where
  "apply_op tr (SetOp k v) = map_option fst (Set tr k v)"
| "apply_op tr (DeleteOp k) = map_option fst (Delete tr k)"

fun apply_ops :: "'v BTree \<Rightarrow> 'v op list \<Rightarrow> 'v BTree option" where
  "apply_ops tr [] = Some tr"
| "apply_ops tr (x # xs) = (case apply_op tr x of None \<Rightarrow> None | Some tr' \<Rightarrow> apply_ops tr' xs)"

fun ref_op :: "(int \<rightharpoonup> 'v option) \<Rightarrow> 'v op \<Rightarrow> (int \<rightharpoonup> 'v option)" where
  "ref_op m (SetOp k v) = m(k \<mapsto> v)"
| "ref_op m (DeleteOp k) = m(k := None)"

definition ref_ops :: "'v op list \<Rightarrow> (int \<rightharpoonup> 'v option)" where
  "ref_ops ops = foldl ref_op Map.empty ops"

section \<open>The structural invariants of the specification\<close>

text \<open>
  The structural invariants, stated on the nodes themselves. A leaf is a node whose child
  pointers are all nil. \<open>keys_of\<close> is the set of keys in a subtree.
  \<open>node_ordered\<close>: in every node of the subtree the items are strictly increasing in
  key; every node that is not a leaf has one child more than items, and the keys of the
  subtree \<open>children[i]\<close> are below the key of \<open>items[i]\<close>, which is below the keys of
  the subtree \<open>children[i+1]\<close>. \<open>leaves_at d\<close>: every leaf of the subtree is \<open>d\<close>
  levels below its root. \<open>min_filled\<close>: every node of the subtree but its root holds at
  least \<open>minItems\<close> items.
\<close>

fun keys_of :: "'v node \<Rightarrow> int set" where
  "keys_of (Node xs cs) = key ` set xs \<union> (\<Union>c \<in> set cs. keys_of c)"





section \<open>What a tree holds, and watching a visitor\<close>

text \<open>
  What a tree holds, read off its nodes: the set of items stored in the nodes of a
  subtree, and the number of item slots in use.
\<close>

fun items_of :: "'v node \<Rightarrow> 'v item set" where
  "items_of (Node xs cs) = set xs \<union> (\<Union>c \<in> set cs. items_of c)"

fun count_items :: "'v node \<Rightarrow> nat" where
  "count_items (Node xs cs) = length xs + sum_list (map count_items cs)"

definition tree_items :: "'v BTree \<Rightarrow> 'v item set" where
  "tree_items tr = (case root tr of None \<Rightarrow> {} | Some r \<Rightarrow> items_of r)"

definition tree_count :: "'v BTree \<Rightarrow> nat" where
  "tree_count tr = (case root tr of None \<Rightarrow> 0 | Some r \<Rightarrow> count_items r)"

definition tree_keys :: "'v BTree \<Rightarrow> int set" where
  "tree_keys tr = (case root tr of None \<Rightarrow> {} | Some r \<Rightarrow> keys_of r)"

text \<open>
  A visitor that always continues and keeps the list of the pairs it was called with, in
  the order of the calls.
\<close>

definition collect :: "('v, (int \<times> 'v option) list) visitor" where
  "collect k v s = (True, s @ [(k, v)])"

definition pair_of :: "'v item \<Rightarrow> int \<times> 'v option" where
  "pair_of x = (key x, val x)"


text \<open>
  Watching a visitor: \<open>logged f\<close> behaves as \<open>f\<close> and appends to a log, at each call, the
  key and value it was called with and the answer it gave. \<open>calls_of walk f s\<close> is the
  list of the pairs that the traversal \<open>walk\<close> passes to \<open>f\<close> (started in state \<open>s\<close>), in
  the order of the calls; \<open>answers_of walk f s\<close> is the list of the answers \<open>f\<close> gave.
\<close>

definition logged :: "('v, 's) visitor \<Rightarrow> ('v, 's \<times> (int \<times> 'v option \<times> bool) list) visitor" where
  "logged f k v st =
     (case st of (s, log) \<Rightarrow> (case f k v s of (b, s') \<Rightarrow> (b, (s', log @ [(k, v, b)]))))"

definition calls_of ::
  "(('v, 's \<times> (int \<times> 'v option \<times> bool) list) visitor \<Rightarrow> 's \<times> (int \<times> 'v option \<times> bool) list \<Rightarrow>
     ('s \<times> (int \<times> 'v option \<times> bool) list) option) \<Rightarrow>
   ('v, 's) visitor \<Rightarrow> 's \<Rightarrow> (int \<times> 'v option) list option" where
  "calls_of walk f s = map_option (\<lambda>r. map (\<lambda>e. (fst e, fst (snd e))) (snd r)) (walk (logged f) (s, []))"

definition answers_of ::
  "(('v, 's \<times> (int \<times> 'v option \<times> bool) list) visitor \<Rightarrow> 's \<times> (int \<times> 'v option \<times> bool) list \<Rightarrow>
     ('s \<times> (int \<times> 'v option \<times> bool) list) option) \<Rightarrow>
   ('v, 's) visitor \<Rightarrow> 's \<Rightarrow> bool list option" where
  "answers_of walk f s = map_option (\<lambda>r. map (\<lambda>e. snd (snd e)) (snd r)) (walk (logged f) (s, []))"

definition always_continue :: "('v, 's) visitor \<Rightarrow> bool" where
  "always_continue f = (\<forall>k v s. fst (f k v s))"

section \<open>The read-only methods with the nodes passed through\<close>

text \<open>
  The read-only methods once more, now modelled the way \<open>set\<close> and \<open>delete\<close> are: a
  method receives its node through a pointer, so each call returns, next to its result,
  the receiver as it is after the call, and the caller keeps in \<open>children[i]\<close> the child
  as the recursive call left it (\<open>put\<close>). The visitor is one that does not touch the
  tree: it works on its own state only.
\<close>

definition put :: "'v node \<Rightarrow> nat \<Rightarrow> 'v node \<Rightarrow> 'v node" where
  "put n i c = Node (items n) ((children n)[i := c])"

fun get_thr :: "'v node \<Rightarrow> int \<Rightarrow> nat \<Rightarrow> (('v option \<times> bool) \<times> 'v node) option" where
  "get_thr n k 0 =
     (case find_node n k of
        (i, True) \<Rightarrow> Some ((val (items n ! i), True), n)
      | (i, False) \<Rightarrow> Some ((None, False), n))"
| "get_thr n k (Suc h) =
     (case find_node n k of
        (i, True) \<Rightarrow> Some ((val (items n ! i), True), n)
      | (i, False) \<Rightarrow>
          (case child n i of
             None \<Rightarrow> None
           | Some c \<Rightarrow>
               (case get_thr c k h of
                  None \<Rightarrow> None
                | Some (r, c') \<Rightarrow> Some (r, put n i c'))))"

function scan_inner_thr :: "('v node \<Rightarrow> 's \<Rightarrow> ((bool \<times> 's) \<times> 'v node) option) \<Rightarrow>
    ('v, 's) visitor \<Rightarrow> 'v node \<Rightarrow> nat \<Rightarrow> 's \<Rightarrow> ((bool \<times> 's) \<times> 'v node) option" where
  "scan_inner_thr rec iter n i s =
     (if i < numItems n then
        (case child n i of
           None \<Rightarrow> None
         | Some c \<Rightarrow>
             (case rec c s of
                None \<Rightarrow> None
              | Some ((False, s'), c') \<Rightarrow> Some ((False, s'), put n i c')
              | Some ((True, s'), c') \<Rightarrow>
                  (case iter (key (items n ! i)) (val (items n ! i)) s' of
                     (False, s'') \<Rightarrow> Some ((False, s''), put n i c')
                   | (True, s'') \<Rightarrow> scan_inner_thr rec iter (put n i c') (i + 1) s'')))
      else
        (case child n (numItems n) of
           None \<Rightarrow> None
         | Some c \<Rightarrow>
             (case rec c s of
                None \<Rightarrow> None
              | Some (r, c') \<Rightarrow> Some (r, put n (numItems n) c'))))"
  by pat_completeness auto
termination
  by (relation "measure (\<lambda>(rec, iter, n, i, s). numItems n - i)")
     (auto simp: put_def numItems_def)

declare scan_inner_thr.simps [simp del]

fun scan_thr :: "('v, 's) visitor \<Rightarrow> 'v node \<Rightarrow> nat \<Rightarrow> 's \<Rightarrow> ((bool \<times> 's) \<times> 'v node) option" where
  "scan_thr iter n 0 s = Some (scan_leaf iter n 0 s, n)"
| "scan_thr iter n (Suc h) s = scan_inner_thr (\<lambda>c. scan_thr iter c h) iter n 0 s"

fun reverse_inner_thr :: "('v node \<Rightarrow> 's \<Rightarrow> ((bool \<times> 's) \<times> 'v node) option) \<Rightarrow>
    ('v, 's) visitor \<Rightarrow> 'v node \<Rightarrow> nat \<Rightarrow> 's \<Rightarrow> ((bool \<times> 's) \<times> 'v node) option" where
  "reverse_inner_thr rec iter n 0 s = Some ((True, s), n)"
| "reverse_inner_thr rec iter n (Suc i) s =
     (case iter (key (items n ! i)) (val (items n ! i)) s of
        (False, s') \<Rightarrow> Some ((False, s'), n)
      | (True, s') \<Rightarrow>
          (case child n i of
             None \<Rightarrow> None
           | Some c \<Rightarrow>
               (case rec c s' of
                  None \<Rightarrow> None
                | Some ((False, s''), c') \<Rightarrow> Some ((False, s''), put n i c')
                | Some ((True, s''), c') \<Rightarrow> reverse_inner_thr rec iter (put n i c') i s'')))"

fun reverse_thr :: "('v, 's) visitor \<Rightarrow> 'v node \<Rightarrow> nat \<Rightarrow> 's \<Rightarrow> ((bool \<times> 's) \<times> 'v node) option" where
  "reverse_thr iter n 0 s = Some (reverse_leaf iter n (numItems n) s, n)"
| "reverse_thr iter n (Suc h) s =
     (case child n (numItems n) of
        None \<Rightarrow> None
      | Some c \<Rightarrow>
          (case reverse_thr iter c h s of
             None \<Rightarrow> None
           | Some ((False, s'), c') \<Rightarrow> Some ((False, s'), put n (numItems n) c')
           | Some ((True, s'), c') \<Rightarrow>
               reverse_inner_thr (\<lambda>c. reverse_thr iter c h) iter
                 (put n (numItems n) c') (numItems n) s'))"

function ascend_loop_thr :: "bool \<Rightarrow> ('v node \<Rightarrow> 's \<Rightarrow> ((bool \<times> 's) \<times> 'v node) option) \<Rightarrow>
    ('v, 's) visitor \<Rightarrow> 'v node \<Rightarrow> nat \<Rightarrow> 's \<Rightarrow> ((bool \<times> 's) \<times> 'v node) option" where
  "ascend_loop_thr inner rec iter n i s =
     (if i < numItems n then
        (case iter (key (items n ! i)) (val (items n ! i)) s of
           (False, s') \<Rightarrow> Some ((False, s'), n)
         | (True, s') \<Rightarrow>
             if inner then
               (case child n (i + 1) of
                  None \<Rightarrow> None
                | Some c \<Rightarrow>
                    (case rec c s' of
                       None \<Rightarrow> None
                     | Some ((False, s''), c') \<Rightarrow> Some ((False, s''), put n (i + 1) c')
                     | Some ((True, s''), c') \<Rightarrow>
                         ascend_loop_thr inner rec iter (put n (i + 1) c') (i + 1) s''))
             else ascend_loop_thr inner rec iter n (i + 1) s')
      else Some ((True, s), n))"
  by pat_completeness auto
termination
  by (relation "measure (\<lambda>(inner, rec, iter, n, i, s). numItems n - i)")
     (auto simp: put_def numItems_def)

declare ascend_loop_thr.simps [simp del]

fun ascend_thr :: "int \<Rightarrow> ('v, 's) visitor \<Rightarrow> 'v node \<Rightarrow> nat \<Rightarrow> 's \<Rightarrow> ((bool \<times> 's) \<times> 'v node) option" where
  "ascend_thr pivot iter n 0 s =
     (case find_node n pivot of
        (i, found) \<Rightarrow> ascend_loop_thr False (\<lambda>c s. None) iter n i s)"
| "ascend_thr pivot iter n (Suc h) s =
     (case find_node n pivot of
        (i, True) \<Rightarrow> ascend_loop_thr True (\<lambda>c. scan_thr iter c h) iter n i s
      | (i, False) \<Rightarrow>
          (case child n i of
             None \<Rightarrow> None
           | Some c \<Rightarrow>
               (case ascend_thr pivot iter c h s of
                  None \<Rightarrow> None
                | Some ((False, s'), c') \<Rightarrow> Some ((False, s'), put n i c')
                | Some ((True, s'), c') \<Rightarrow>
                    ascend_loop_thr True (\<lambda>c. scan_thr iter c h) iter (put n i c') i s')))"

fun descend_loop_thr :: "bool \<Rightarrow> ('v node \<Rightarrow> 's \<Rightarrow> ((bool \<times> 's) \<times> 'v node) option) \<Rightarrow>
    ('v, 's) visitor \<Rightarrow> 'v node \<Rightarrow> nat \<Rightarrow> 's \<Rightarrow> ((bool \<times> 's) \<times> 'v node) option" where
  "descend_loop_thr inner rec iter n 0 s = Some ((True, s), n)"
| "descend_loop_thr inner rec iter n (Suc i) s =
     (case iter (key (items n ! i)) (val (items n ! i)) s of
        (False, s') \<Rightarrow> Some ((False, s'), n)
      | (True, s') \<Rightarrow>
          if inner then
            (case child n i of
               None \<Rightarrow> None
             | Some c \<Rightarrow>
                 (case rec c s' of
                    None \<Rightarrow> None
                  | Some ((False, s''), c') \<Rightarrow> Some ((False, s''), put n i c')
                  | Some ((True, s''), c') \<Rightarrow>
                      descend_loop_thr inner rec iter (put n i c') i s''))
          else descend_loop_thr inner rec iter n i s')"

fun descend_thr :: "int \<Rightarrow> ('v, 's) visitor \<Rightarrow> 'v node \<Rightarrow> nat \<Rightarrow> 's \<Rightarrow> ((bool \<times> 's) \<times> 'v node) option" where
  "descend_thr pivot iter n 0 s =
     (case find_node n pivot of
        (i, True) \<Rightarrow> descend_loop_thr False (\<lambda>c s. None) iter n (i + 1) s
      | (i, False) \<Rightarrow> descend_loop_thr False (\<lambda>c s. None) iter n i s)"
| "descend_thr pivot iter n (Suc h) s =
     (case find_node n pivot of
        (i, True) \<Rightarrow> descend_loop_thr True (\<lambda>c. reverse_thr iter c h) iter n (i + 1) s
      | (i, False) \<Rightarrow>
          (case child n i of
             None \<Rightarrow> None
           | Some c \<Rightarrow>
               (case descend_thr pivot iter c h s of
                  None \<Rightarrow> None
                | Some ((False, s'), c') \<Rightarrow> Some ((False, s'), put n i c')
                | Some ((True, s'), c') \<Rightarrow>
                    descend_loop_thr True (\<lambda>c. reverse_thr iter c h) iter (put n i c') i s')))"

fun getOrNearest_thr :: "'v node \<Rightarrow> int \<Rightarrow> nat \<Rightarrow> ((int \<times> 'v option) \<times> 'v node) option" where
  "getOrNearest_thr n k 0 =
     (case find_node n k of
        (i, True) \<Rightarrow> Some ((key (items n ! i), val (items n ! i)), n)
      | (i, False) \<Rightarrow>
          if i > 0 then Some ((key (items n ! (i - 1)), val (items n ! (i - 1))), n)
          else None)"
| "getOrNearest_thr n k (Suc 0) =
     (case find_node n k of
        (i, True) \<Rightarrow> Some ((key (items n ! i), val (items n ! i)), n)
      | (i, False) \<Rightarrow>
          (case child n i of
             None \<Rightarrow> None
           | Some c \<Rightarrow>
               (case find_node c k of
                  (ci, True) \<Rightarrow> Some ((key (items c ! ci), val (items c ! ci)), n)
                | (ci, False) \<Rightarrow>
                    if ci > 0 then Some ((key (items c ! (ci - 1)), val (items c ! (ci - 1))), n)
                    else if i > 0 then Some ((key (items n ! (i - 1)), val (items n ! (i - 1))), n)
                    else Some ((0, None), n))))"
| "getOrNearest_thr n k (Suc (Suc h)) =
     (case find_node n k of
        (i, True) \<Rightarrow> Some ((key (items n ! i), val (items n ! i)), n)
      | (i, False) \<Rightarrow>
          (case child n i of
             None \<Rightarrow> None
           | Some c \<Rightarrow>
               (case getOrNearest_thr c k (Suc h) of
                  None \<Rightarrow> None
                | Some (r, c') \<Rightarrow> Some (r, put n i c'))))"

text \<open>
  The public read-only methods, each returning its result and the handle after the call.
  \<open>on_root\<close> is their common frame: nothing is done on an absent root (the result is
  \<open>dflt\<close>); otherwise the method of the root node is called, and the handle holds the
  root as that call left it.
\<close>

definition on_root ::
  "'v BTree \<Rightarrow> 'r \<Rightarrow> ('v node \<Rightarrow> nat \<Rightarrow> ('a \<times> 'v node) option) \<Rightarrow> ('a \<Rightarrow> 'r) \<Rightarrow> ('r \<times> 'v BTree) option" where
  "on_root tr dflt m res =
     (case root tr of
        None \<Rightarrow> Some (dflt, tr)
      | Some r \<Rightarrow>
          (case m r (height tr) of
             None \<Rightarrow> None
           | Some (a, r') \<Rightarrow> Some (res a, tr\<lparr>root := Some r'\<rparr>)))"

definition Get_thr :: "'v BTree \<Rightarrow> int \<Rightarrow> (('v option \<times> bool) \<times> 'v BTree) option" where
  "Get_thr tr k = on_root tr (None, False) (\<lambda>r h. get_thr r k h) (\<lambda>a. a)"

definition Scan_thr :: "'v BTree \<Rightarrow> ('v, 's) visitor \<Rightarrow> 's \<Rightarrow> ('s \<times> 'v BTree) option" where
  "Scan_thr tr iter s = on_root tr s (\<lambda>r h. scan_thr iter r h s) snd"

definition Reverse_thr :: "'v BTree \<Rightarrow> ('v, 's) visitor \<Rightarrow> 's \<Rightarrow> ('s \<times> 'v BTree) option" where
  "Reverse_thr tr iter s = on_root tr s (\<lambda>r h. reverse_thr iter r h s) snd"

definition Ascend_thr :: "'v BTree \<Rightarrow> int \<Rightarrow> ('v, 's) visitor \<Rightarrow> 's \<Rightarrow> ('s \<times> 'v BTree) option" where
  "Ascend_thr tr pivot iter s = on_root tr s (\<lambda>r h. ascend_thr pivot iter r h s) snd"

definition Descend_thr :: "'v BTree \<Rightarrow> int \<Rightarrow> ('v, 's) visitor \<Rightarrow> 's \<Rightarrow> ('s \<times> 'v BTree) option" where
  "Descend_thr tr pivot iter s = on_root tr s (\<lambda>r h. descend_thr pivot iter r h s) snd"

definition GreaterOrEqual_thr :: "'v BTree \<Rightarrow> int \<Rightarrow> ('v, 's) visitor \<Rightarrow> 's \<Rightarrow> ('s \<times> 'v BTree) option" where
  "GreaterOrEqual_thr tr pivot iter s = on_root tr s (\<lambda>r h. ascend_thr pivot iter r h s) snd"

definition LessOrEqual_thr :: "'v BTree \<Rightarrow> int \<Rightarrow> ('v, 's) visitor \<Rightarrow> 's \<Rightarrow> ('s \<times> 'v BTree) option" where
  "LessOrEqual_thr tr pivot iter s = on_root tr s (\<lambda>r h. descend_thr pivot iter r h s) snd"

definition Next_thr :: "'v BTree \<Rightarrow> int \<Rightarrow> ((int \<times> 'v option) \<times> 'v BTree) option" where
  "Next_thr tr pivot =
     map_option (\<lambda>(st, tr'). (snd st, tr')) (GreaterOrEqual_thr tr pivot second_iter (0, 0, None))"

definition Prev_thr :: "'v BTree \<Rightarrow> int \<Rightarrow> ((int \<times> 'v option) \<times> 'v BTree) option" where
  "Prev_thr tr pivot =
     map_option (\<lambda>(st, tr'). (snd st, tr')) (LessOrEqual_thr tr pivot second_iter (0, 0, None))"

definition GetOrNearest_thr :: "'v BTree \<Rightarrow> int \<Rightarrow> ((int \<times> 'v option) \<times> 'v BTree) option" where
  "GetOrNearest_thr tr k = on_root tr (0, None) (\<lambda>r h. getOrNearest_thr r k h) (\<lambda>a. a)"

definition keeps :: "'t \<Rightarrow> 'r option \<Rightarrow> ('r \<times> 't) option" where
  "keeps t res = map_option (\<lambda>r. (r, t)) res"

section \<open>The entry at or below a key\<close>

text \<open>
  The entry with the greatest key at or below \<open>k\<close> in a list of items sorted by key, if
  there is one.
\<close>

definition floor_of :: "'v item list \<Rightarrow> int \<Rightarrow> (int \<times> 'v option) option" where
  "floor_of xs k =
     (let ys = filter (\<lambda>x. key x \<le> k) xs in if ys = [] then None else Some (pair_of (last ys)))"

text \<open>The ten keys asked for by the test of \<open>GetOrNearest\<close>, asked one after the other.\<close>

definition nearest_all :: "'v BTree \<Rightarrow> int list \<Rightarrow> (int \<times> 'v option) option list" where
  "nearest_all tr ks = map (GetOrNearest tr) ks"

section \<open>Concrete trees\<close>

text \<open>
  The tree that \<open>Set(0, 0), Set(2, 2), ..., Set(1020, 1020)\<close> builds from the empty
  tree, 511 keys in increasing order: the 31st split of the last leaf fills the root,
  which is split in turn. The root holds 510, its two children hold 15 items and 16
  leaves each, and every leaf holds 15 items.
\<close>

definition ex_leaf :: "int \<Rightarrow> int node" where
  "ex_leaf lo = Node (map (\<lambda>i. Item (lo + 2 * int i) (Some (lo + 2 * int i))) [0..<15]) []"

definition ex_inner :: "int \<Rightarrow> int node" where
  "ex_inner lo =
     Node (map (\<lambda>j. Item (lo + 30 + 32 * int j) (Some (lo + 30 + 32 * int j))) [0..<15])
          (map (\<lambda>j. ex_leaf (lo + 32 * int j)) [0..<16])"

definition ex_tree :: "int BTree" where
  "ex_tree =
     \<lparr>height = 2, root = Some (Node [Item 510 (Some 510)] [ex_inner 0, ex_inner 512]),
      len = 511\<rparr>"

section \<open>Search inside a node: lemmas\<close>

lemma maxItems_val [simp]: "maxItems = 31"
  by (simp add: maxItems_def)

lemma minItems_val [simp]: "minItems = 12"
  by (simp add: minItems_def)

lemma ksorted_nth_less:
  assumes "ksorted its" "a < b" "b < length its"
  shows "key (its ! a) < key (its ! b)"
proof -
  have "map key its ! a < map key its ! b"
    using assms unfolding ksorted_def by (intro sorted_wrt_nth_less) simp_all
  then show ?thesis using assms by simp
qed

lemma ksorted_nth_mono:
  assumes "ksorted its" "a \<le> b" "b < length its"
  shows "key (its ! a) \<le> key (its ! b)"
proof (cases "a = b")
  case True
  then show ?thesis by simp
next
  case False
  with assms have "a < b" by simp
  from ksorted_nth_less [OF assms(1) this assms(3)] show ?thesis by simp
qed

lemma find_loop_stop: "\<not> i < j \<Longrightarrow> find_loop its k i j = i"
  by (subst find_loop.simps) simp

lemma find_loop_right:
  "i < j \<Longrightarrow> key (its ! (i + (j - i) div 2)) \<le> k \<Longrightarrow>
   find_loop its k i j = find_loop its k (i + (j - i) div 2 + 1) j"
  by (subst find_loop.simps) (simp add: Let_def)

lemma find_loop_left:
  "i < j \<Longrightarrow> \<not> key (its ! (i + (j - i) div 2)) \<le> k \<Longrightarrow>
   find_loop its k i j = find_loop its k i (i + (j - i) div 2)"
  by (subst find_loop.simps) (simp add: Let_def)

text \<open>Without any order on the items: the result lies between the two bounds.\<close>

lemma find_loop_le: "i \<le> j \<Longrightarrow> i \<le> find_loop its k i j \<and> find_loop its k i j \<le> j"
proof (induction its k i j rule: find_loop.induct)
  case (1 its k i j)
  show ?case
  proof (cases "i < j")
    case False
    then show ?thesis using "1.prems" by (simp add: find_loop_stop)
  next
    case True
    define h where "h = i + (j - i) div 2"
    have hb: "i \<le> h" "h < j" using True by (auto simp: h_def)
    show ?thesis
    proof (cases "key (its ! h) \<le> k")
      case le: True
      have eq: "find_loop its k i j = find_loop its k (h + 1) j"
        using find_loop_right [OF True] le by (simp add: h_def)
      show ?thesis unfolding eq using "1.IH"(1) [OF True h_def le] hb by simp
    next
      case gt: False
      have eq: "find_loop its k i j = find_loop its k i h"
        using find_loop_left [OF True] gt by (simp add: h_def)
      show ?thesis unfolding eq using "1.IH"(2) [OF True h_def gt] hb by simp
    qed
  qed
qed

text \<open>Without any order on the items: the item before the result is at or below the key.\<close>

lemma find_loop_last_le:
  "i \<le> j \<Longrightarrow> i < find_loop its k i j \<Longrightarrow> key (its ! (find_loop its k i j - 1)) \<le> k"
proof (induction its k i j rule: find_loop.induct)
  case (1 its k i j)
  show ?case
  proof (cases "i < j")
    case False
    then show ?thesis using "1.prems" by (simp add: find_loop_stop)
  next
    case True
    define h where "h = i + (j - i) div 2"
    have hb: "i \<le> h" "h < j" using True by (auto simp: h_def)
    show ?thesis
    proof (cases "key (its ! h) \<le> k")
      case le: True
      have eq: "find_loop its k i j = find_loop its k (h + 1) j"
        using find_loop_right [OF True] le by (simp add: h_def)
      show ?thesis
      proof (cases "h + 1 < find_loop its k (h + 1) j")
        case True
        then show ?thesis unfolding eq using "1.IH"(1) [OF \<open>i < j\<close> h_def le] hb by simp
      next
        case False
        then have "find_loop its k (h + 1) j = h + 1"
          using find_loop_le [of "h + 1" j its k] hb by simp
        then show ?thesis unfolding eq using le by simp
      qed
    next
      case gt: False
      have eq: "find_loop its k i j = find_loop its k i h"
        using find_loop_left [OF True] gt by (simp add: h_def)
      have "i < find_loop its k i h" using "1.prems" eq by simp
      then show ?thesis unfolding eq using "1.IH"(2) [OF True h_def gt] hb by simp
    qed
  qed
qed

text \<open>On items sorted by key the result separates the keys at or below \<open>k\<close> from those above.\<close>

lemma find_loop_bounds:
  assumes "ksorted its" "j \<le> length its" "i \<le> j"
  shows "(\<forall>x. i \<le> x \<and> x < find_loop its k i j \<longrightarrow> key (its ! x) \<le> k) \<and>
         (\<forall>x. find_loop its k i j \<le> x \<and> x < j \<longrightarrow> k < key (its ! x))"
  using assms
proof (induction its k i j rule: find_loop.induct)
  case (1 its k i j)
  show ?case
  proof (cases "i < j")
    case False
    then show ?thesis using "1.prems" by (simp add: find_loop_stop)
  next
    case True
    define h where "h = i + (j - i) div 2"
    have hb: "i \<le> h" "h < j" using True by (auto simp: h_def)
    show ?thesis
    proof (cases "key (its ! h) \<le> k")
      case le: True
      have eq: "find_loop its k i j = find_loop its k (h + 1) j"
        using find_loop_right [OF True] le by (simp add: h_def)
      have ih: "\<forall>x. h + 1 \<le> x \<and> x < find_loop its k (h + 1) j \<longrightarrow> key (its ! x) \<le> k"
               "\<forall>x. find_loop its k (h + 1) j \<le> x \<and> x < j \<longrightarrow> k < key (its ! x)"
        using "1.IH"(1) [OF True h_def le] "1.prems" hb by simp_all
      have low: "key (its ! x) \<le> k" if "x \<le> h" for x
        using ksorted_nth_mono [OF "1.prems"(1) that] hb "1.prems" le by simp
      have "key (its ! x) \<le> k" if "i \<le> x" "x < find_loop its k (h + 1) j" for x
      proof (cases "x \<le> h")
        case True
        then show ?thesis by (rule low)
      next
        case False
        then show ?thesis using ih(1) that by simp
      qed
      then show ?thesis unfolding eq using ih(2) by simp
    next
      case gt: False
      have eq: "find_loop its k i j = find_loop its k i h"
        using find_loop_left [OF True] gt by (simp add: h_def)
      have ih: "\<forall>x. i \<le> x \<and> x < find_loop its k i h \<longrightarrow> key (its ! x) \<le> k"
               "\<forall>x. find_loop its k i h \<le> x \<and> x < h \<longrightarrow> k < key (its ! x)"
        using "1.IH"(2) [OF True h_def gt] "1.prems" hb by simp_all
      have high: "k < key (its ! x)" if "h \<le> x" "x < j" for x
        using ksorted_nth_mono [OF "1.prems"(1) that(1)] that hb "1.prems" gt by simp
      have "k < key (its ! x)" if "find_loop its k i h \<le> x" "x < j" for x
      proof (cases "h \<le> x")
        case True
        then show ?thesis using high that by simp
      next
        case False
        then show ?thesis using ih(2) that by simp
      qed
      then show ?thesis unfolding eq using ih(1) by simp
    qed
  qed
qed

lemma find_node_index: "find_node n k = (i, b) \<Longrightarrow> i \<le> numItems n"
  using find_loop_le [of 0 "numItems n" "items n" k]
  by (auto simp: find_node_def Let_def split: if_splits)

lemma find_node_found:
  assumes "find_node n k = (i, True)"
  shows "i < numItems n \<and> key (items n ! i) = k"
proof -
  define r where "r = find_loop (items n) k 0 (numItems n)"
  from assms have r: "r > 0" "key (items n ! (r - 1)) \<ge> k" "i = r - 1"
    by (auto simp: find_node_def Let_def r_def split: if_splits)
  have "r \<le> numItems n" using find_loop_le [of 0 "numItems n" "items n" k] by (simp add: r_def)
  moreover have "key (items n ! (r - 1)) \<le> k"
    using find_loop_last_le [of 0 "numItems n" "items n" k] r(1) by (simp add: r_def)
  ultimately show ?thesis using r by auto
qed

lemma find_node_not_found:
  assumes "find_node n k = (i, False)" "ksorted (items n)"
  shows "i \<le> numItems n \<and> (\<forall>x \<in> set (take i (items n)). key x < k) \<and>
         (\<forall>x \<in> set (drop i (items n)). k < key x)"
proof -
  define r where "r = find_loop (items n) k 0 (numItems n)"
  from assms(1) have r: "i = r" "\<not> (r > 0 \<and> key (items n ! (r - 1)) \<ge> k)"
    by (auto simp: find_node_def Let_def r_def split: if_splits)
  have b: "r \<le> numItems n"
     "\<forall>x. x < r \<longrightarrow> key (items n ! x) \<le> k"
     "\<forall>x. r \<le> x \<and> x < numItems n \<longrightarrow> k < key (items n ! x)"
    using find_loop_bounds [OF assms(2), of "numItems n" 0 k] find_loop_le [of 0 "numItems n" "items n" k]
    by (auto simp: r_def numItems_def)
  have lt: "key (items n ! x) < k" if "x < r" for x
  proof -
    have "key (items n ! x) \<le> key (items n ! (r - 1))"
      using ksorted_nth_mono [OF assms(2), of x "r - 1"] that b(1) by (simp add: numItems_def)
    moreover have "key (items n ! (r - 1)) < k" using r(2) that by auto
    ultimately show ?thesis by simp
  qed
  have "\<forall>x \<in> set (take r (items n)). key x < k"
    using lt b(1) by (auto simp: in_set_conv_nth numItems_def)
  moreover have "\<forall>x \<in> set (drop r (items n)). k < key x"
    using b by (auto simp: in_set_conv_nth numItems_def)
  ultimately show ?thesis using r(1) b(1) by simp
qed

lemma find_node_found_sorted:
  assumes "find_node n k = (i, True)" "ksorted (items n)"
  shows "(\<forall>x \<in> set (take i (items n)). key x < k) \<and>
         (\<forall>x \<in> set (drop (Suc i) (items n)). k < key x)"
proof -
  from find_node_found [OF assms(1)] have i: "i < numItems n" "key (items n ! i) = k" by auto
  have "key (items n ! x) < k" if "x < i" for x
    using ksorted_nth_less [OF assms(2) that] i by (simp add: numItems_def)
  moreover have "k < key (items n ! x)" if "i < x" "x < numItems n" for x
    using ksorted_nth_less [OF assms(2) that(1)] that i by (simp add: numItems_def)
  ultimately show ?thesis
    using i by (auto simp: in_set_conv_nth numItems_def)
qed

section \<open>Lists of entries\<close>

lemma glue_append:
  "length xs1 = length cs1 \<Longrightarrow> glue (xs1 @ xs2) (cs1 @ cs2) = glue xs1 cs1 @ glue xs2 cs2"
  by (induction xs1 cs1 rule: list_induct2) auto

lemma inter_cons: "cs \<noteq> [] \<Longrightarrow> inter (c # cs) (x # xs) = c @ x # inter cs xs"
  by (cases cs) auto

lemma inter_mid:
  "length cs1 = length xs1 \<Longrightarrow>
   inter (cs1 @ c # cs2) (xs1 @ xs2) = lead cs1 xs1 @ c @ glue xs2 cs2"
proof (induction cs1 xs1 rule: list_induct2)
  case Nil
  then show ?case by simp
next
  case (Cons a cs1 x xs1)
  have "inter ((a # cs1) @ c # cs2) ((x # xs1) @ xs2) = a @ x # inter (cs1 @ c # cs2) (xs1 @ xs2)"
    using inter_cons [of "cs1 @ c # cs2" a x "xs1 @ xs2"] by simp
  then show ?case using Cons.IH by simp
qed

lemma inter_last: "length cs1 = length xs1 \<Longrightarrow> inter (cs1 @ [c]) xs1 = lead cs1 xs1 @ c"
  using inter_mid [of cs1 xs1 c "[]" "[]"] by simp

lemma inter_item:
  assumes "length csL = Suc (length xs1)" "csR \<noteq> []"
  shows "inter (csL @ csR) (xs1 @ x # xs2) = inter csL xs1 @ x # inter csR xs2"
proof -
  obtain cs1 l where csL: "csL = cs1 @ [l]" "length cs1 = length xs1"
    using assms(1) by (cases csL rule: rev_cases) auto
  obtain r cs2 where csR: "csR = r # cs2" using assms(2) by (cases csR) auto
  have "inter (csL @ csR) (xs1 @ x # xs2) = lead cs1 xs1 @ l @ glue (x # xs2) (r # cs2)"
    using inter_mid [OF csL(2), of l "r # cs2" "x # xs2"] csL csR by simp
  then show ?thesis using inter_last [OF csL(2), of l] csL csR by simp
qed

lemma inorder_mid:
  "length cs1 = length xs1 \<Longrightarrow>
   inorder (Suc h) (Node (xs1 @ xs2) (cs1 @ c # cs2)) =
   lead (map (inorder h) cs1) xs1 @ inorder h c @ glue xs2 (map (inorder h) cs2)"
  using inter_mid [of "map (inorder h) cs1" xs1 "inorder h c" "map (inorder h) cs2" xs2] by simp

lemma inorder_item:
  "length csL = Suc (length xs1) \<Longrightarrow> csR \<noteq> [] \<Longrightarrow>
   inorder (Suc h) (Node (xs1 @ x # xs2) (csL @ csR)) =
   inorder (Suc h) (Node xs1 csL) @ x # inorder (Suc h) (Node xs2 csR)"
  using inter_item [of "map (inorder h) csL" xs1 "map (inorder h) csR" x xs2] by simp

lemma ksorted_append:
  "ksorted (xs @ ys) \<longleftrightarrow> ksorted xs \<and> ksorted ys \<and> (\<forall>x \<in> set xs. \<forall>y \<in> set ys. key x < key y)"
  by (auto simp: ksorted_def sorted_wrt_append)

lemma ksorted_Cons: "ksorted (x # xs) \<longleftrightarrow> ksorted xs \<and> (\<forall>y \<in> set xs. key x < key y)"
  by (auto simp: ksorted_def)

lemma ksorted_Nil [simp]: "ksorted []"
  by (simp add: ksorted_def)

lemma set_glue_items: "length xs = length cs \<Longrightarrow> set xs \<subseteq> set (glue xs cs)"
  by (induction xs cs rule: list_induct2) auto

lemma set_lead_items: "length cs = length xs \<Longrightarrow> set xs \<subseteq> set (lead cs xs)"
  by (induction cs xs rule: list_induct2) auto

lemma ksorted_glue_items: "length xs = length cs \<Longrightarrow> ksorted (glue xs cs) \<Longrightarrow> ksorted xs"
proof (induction xs cs rule: list_induct2)
  case Nil
  then show ?case by simp
next
  case (Cons x xs c cs)
  from Cons.prems have s: "ksorted (glue xs cs)" "\<forall>y \<in> set (glue xs cs). key x < key y"
    by (auto simp: ksorted_Cons ksorted_append)
  with Cons.IH set_glue_items [OF Cons.hyps] show ?case
    by (auto simp: ksorted_Cons)
qed

lemma ksorted_lead_items: "length cs = length xs \<Longrightarrow> ksorted (lead cs xs) \<Longrightarrow> ksorted xs"
proof (induction cs xs rule: list_induct2)
  case Nil
  then show ?case by simp
next
  case (Cons c cs x xs)
  from Cons.prems have s: "ksorted (lead cs xs)" "\<forall>y \<in> set (lead cs xs). key x < key y"
    by (auto simp: ksorted_Cons ksorted_append)
  with Cons.IH set_lead_items [OF Cons.hyps] show ?case
    by (auto simp: ksorted_Cons)
qed

lemma lead_below:
  "ksorted (lead cs xs) \<Longrightarrow> \<forall>x \<in> set xs. key x < k \<Longrightarrow> \<forall>a \<in> set (lead cs xs). key a < k"
proof (induction cs xs rule: lead.induct)
  case (1 c cs x xs)
  from "1.prems" have "ksorted (lead cs xs)" "\<forall>a \<in> set c. key a < key x" "key x < k"
    by (auto simp: ksorted_Cons ksorted_append)
  with "1.IH" "1.prems"(2) show ?case by fastforce
qed simp_all

lemma glue_above:
  "ksorted (glue xs cs) \<Longrightarrow> \<forall>x \<in> set xs. k < key x \<Longrightarrow> \<forall>a \<in> set (glue xs cs). k < key a"
proof (induction xs cs rule: glue.induct)
  case (1 x xs c cs)
  from "1.prems" have "ksorted (glue xs cs)" "\<forall>a \<in> set c. key x < key a" "k < key x"
    by (auto simp: ksorted_Cons ksorted_append)
  with "1.IH" "1.prems"(2) show ?case by fastforce
qed simp_all

subsection \<open>Insertion, deletion and lookup in a sorted list\<close>

lemma upd_list_right:
  "\<forall>c \<in> set C. k < key c \<Longrightarrow> upd_list k v (B @ C) = upd_list k v B @ C"
proof (induction B)
  case Nil
  then show ?case by (cases C) auto
next
  case (Cons b B)
  then show ?case by simp
qed

lemma upd_list_left:
  "\<forall>a \<in> set A. key a < k \<Longrightarrow> upd_list k v (A @ B) = A @ upd_list k v B"
  by (induction A) auto

lemma upd_list_mid:
  "\<forall>a \<in> set A. key a < k \<Longrightarrow> \<forall>c \<in> set C. k < key c \<Longrightarrow>
   upd_list k v (A @ B @ C) = A @ upd_list k v B @ C"
  by (simp add: upd_list_left upd_list_right)

lemma upd_list_hit:
  "\<forall>a \<in> set A. key a < k \<Longrightarrow> key x = k \<Longrightarrow> upd_list k v (A @ x # C) = A @ Item k v # C"
  by (simp add: upd_list_left)

lemma upd_list_ins:
  "\<forall>a \<in> set A. key a < k \<Longrightarrow> \<forall>c \<in> set C. k < key c \<Longrightarrow>
   upd_list k v (A @ C) = A @ Item k v # C"
  using upd_list_mid [of A k C v "[]"] by simp

lemma keys_upd_list: "key ` set (upd_list k v xs) = insert k (key ` set xs)"
  by (induction xs) auto

lemma ksorted_upd_list: "ksorted xs \<Longrightarrow> ksorted (upd_list k v xs)"
proof (induction xs)
  case Nil
  then show ?case by (simp add: ksorted_def)
next
  case (Cons x xs)
  have "\<forall>y \<in> set (upd_list k v xs). key x < key y" if "key x < k"
  proof
    fix y assume "y \<in> set (upd_list k v xs)"
    then have "key y \<in> insert k (key ` set xs)" using keys_upd_list [of k v xs] by blast
    with Cons.prems that show "key x < key y" by (auto simp: ksorted_Cons)
  qed
  with Cons show ?case by (auto simp: ksorted_Cons)
qed

lemma length_upd_list:
  "ksorted xs \<Longrightarrow>
   length (upd_list k v xs) = (if k \<in> key ` set xs then length xs else Suc (length xs))"
  by (induction xs) (auto simp: ksorted_Cons)

lemma lookup_None: "k \<notin> key ` set xs \<Longrightarrow> lookup xs k = None"
  by (induction xs) auto

lemma lookup_left: "k \<notin> key ` set A \<Longrightarrow> lookup (A @ B) k = lookup B k"
  by (induction A) auto

lemma lookup_right: "k \<notin> key ` set C \<Longrightarrow> lookup (B @ C) k = lookup B k"
  by (induction B) (auto simp: lookup_None)

lemma lookup_hit: "k \<notin> key ` set A \<Longrightarrow> key x = k \<Longrightarrow> lookup (A @ x # C) k = Some (val x)"
  by (simp add: lookup_left)

lemma lookup_upd_list:
  "ksorted xs \<Longrightarrow> lookup (upd_list k v xs) k' = (if k' = k then Some v else lookup xs k')"
  by (induction xs) (auto simp: ksorted_Cons)


lemma del_list_left: "k \<notin> key ` set A \<Longrightarrow> del_list k (A @ B) = A @ del_list k B"
  by (induction A) auto

lemma del_list_absent: "k \<notin> key ` set xs \<Longrightarrow> del_list k xs = xs"
  by (induction xs) auto

lemma del_list_right: "k \<notin> key ` set C \<Longrightarrow> del_list k (B @ C) = del_list k B @ C"
  by (induction B) (auto simp: del_list_absent)

lemma del_list_hit: "k \<notin> key ` set A \<Longrightarrow> key x = k \<Longrightarrow> del_list k (A @ x # C) = A @ C"
  by (simp add: del_list_left)

lemma set_del_list: "set (del_list k xs) \<subseteq> set xs"
  by (induction xs) auto

lemma ksorted_del_list: "ksorted xs \<Longrightarrow> ksorted (del_list k xs)"
  using set_del_list [of k] by (induction xs) (auto simp: ksorted_Cons)

lemma keys_del_list: "ksorted xs \<Longrightarrow> key ` set (del_list k xs) = key ` set xs - {k}"
  by (induction xs) (auto simp: ksorted_Cons)

lemma lookup_del_list:
  "ksorted xs \<Longrightarrow> lookup (del_list k xs) k' = (if k' = k then None else lookup xs k')"
proof (induction xs)
  case Nil
  then show ?case by simp
next
  case (Cons x xs)
  have "lookup xs (key x) = None"
    using Cons.prems by (intro lookup_None) (auto simp: ksorted_Cons)
  with Cons show ?case by (auto simp: ksorted_Cons)
qed

lemma length_del_list:
  "length (del_list k xs) = (if k \<in> key ` set xs then length xs - 1 else length xs)"
proof (induction xs)
  case Nil
  then show ?case by simp
next
  case (Cons x xs)
  have "xs \<noteq> []" if "k \<in> key ` set xs" using that by auto
  then have "Suc (length xs - 1) = length xs" if "k \<in> key ` set xs" using that by simp
  with Cons show ?case by auto
qed

subsection \<open>A node around one of its children, or around one of its items\<close>

lemma around_child:
  assumes "i \<le> length xs" "length cs = Suc (length xs)"
  obtains xs1 xs2 cs1 c cs2 where
    "xs = xs1 @ xs2" "cs = cs1 @ c # cs2" "length xs1 = i" "length cs1 = i"
    "length cs2 = length xs2"
proof
  show "xs = take i xs @ drop i xs" by simp
  show "cs = take i cs @ cs ! i # drop (Suc i) cs"
    using assms by (simp add: id_take_nth_drop)
  show "length (take i xs) = i" "length (take i cs) = i"
       "length (drop (Suc i) cs) = length (drop i xs)"
    using assms by auto
qed

lemma around_item:
  assumes "i < length xs" "length cs = Suc (length xs)"
  obtains xs1 x xs2 cs1 l r cs2 where
    "xs = xs1 @ x # xs2" "cs = cs1 @ l # r # cs2" "length xs1 = i" "length cs1 = i"
    "length cs2 = length xs2"
proof
  show "xs = take i xs @ xs ! i # drop (Suc i) xs"
    using assms by (simp add: id_take_nth_drop)
  have "cs = take i cs @ cs ! i # drop (Suc i) cs"
    using assms by (simp add: id_take_nth_drop)
  moreover have "drop (Suc i) cs = cs ! Suc i # drop (Suc (Suc i)) cs"
    using assms by (simp add: Cons_nth_drop_Suc)
  ultimately show "cs = take i cs @ cs ! i # cs ! Suc i # drop (Suc (Suc i)) cs" by simp
  show "length (take i xs) = i" "length (take i cs) = i"
       "length (drop (Suc (Suc i)) cs) = length (drop (Suc i) xs)"
    using assms by auto
qed

lemma insert_at_length [simp]: "length xs1 = i \<Longrightarrow> insert_at i x (xs1 @ xs2) = xs1 @ x # xs2"
  by (auto simp: insert_at_def)

lemma remove_at_length [simp]: "length xs1 = i \<Longrightarrow> remove_at i (xs1 @ x # xs2) = xs1 @ xs2"
  by (auto simp: remove_at_def)

lemma update_at_length [simp]: "length xs1 = i \<Longrightarrow> (xs1 @ x # xs2)[i := y] = xs1 @ y # xs2"
  by auto

lemma nth_at_length [simp]: "length xs1 = i \<Longrightarrow> (xs1 @ x # xs2) ! i = x"
  by auto

lemma insert_at_Suc_length [simp]:
  "length xs1 = i \<Longrightarrow> insert_at (Suc i) y (xs1 @ x # xs2) = xs1 @ x # y # xs2"
  by (auto simp: insert_at_def)

section \<open>Set keeps the invariant\<close>

lemma numItems_Node [simp]: "numItems (Node xs cs) = length xs"
  by (simp add: numItems_def)

lemma split_node_ok:
  assumes "shape h n" "numItems n = maxItems" "split_node n h = (l, r, m)"
  shows "shape h l \<and> shape h r \<and> numItems l = 15 \<and> numItems r = 15 \<and>
         inorder h n = inorder h l @ m # inorder h r"
proof (cases n)
  case (Node ys ds)
  with assms(2) have len: "length ys = 31" by simp
  have ys: "ys = take 15 ys @ ys ! 15 # drop 16 ys"
    using id_take_nth_drop [of 15 ys] len by simp
  have dr: "take 15 (drop 16 ys) = drop 16 ys" using len by simp
  show ?thesis
  proof (cases h)
    case 0
    with assms Node len have "l = Node (take 15 ys) []" "r = Node (drop 16 ys) []" "m = ys ! 15"
      by (auto simp: split_node_def Let_def)
    with 0 Node len ys show ?thesis by auto
  next
    case (Suc h')
    with assms(1) Node len have lds: "length ds = 32"
      and kids: "\<forall>c \<in> set ds. minItems \<le> numItems c \<and> numItems c < maxItems \<and> shape h' c"
      by auto
    have ddr: "take 16 (drop 16 ds) = drop 16 ds" using lds by simp
    from Suc assms(3) Node dr ddr have lrm:
      "l = Node (take 15 ys) (take 16 ds)" "r = Node (drop 16 ys) (drop 16 ds)" "m = ys ! 15"
      by (auto simp: split_node_def Let_def)
    have "shape h l" "shape h r"
      using Suc lrm lds len kids by (auto dest: in_set_takeD in_set_dropD)
    moreover have "inorder h n = inorder h l @ m # inorder h r"
    proof -
      have "inorder (Suc h') (Node (take 15 ys @ ys ! 15 # drop 16 ys) (take 16 ds @ drop 16 ds)) =
            inorder (Suc h') (Node (take 15 ys) (take 16 ds)) @ ys ! 15 #
            inorder (Suc h') (Node (drop 16 ys) (drop 16 ds))"
        using lds len by (intro inorder_item) auto
      then show ?thesis using ys Suc Node lrm by simp
    qed
    ultimately show ?thesis using lrm len by simp
  qed
qed

lemma ksorted_inorder_items:
  assumes "shape h n" "ksorted (inorder h n)"
  shows "ksorted (items n)"
proof (cases h)
  case 0
  with assms show ?thesis by simp
next
  case (Suc h')
  obtain xs cs where n: "n = Node xs cs" by (cases n)
  with assms(1) Suc have "length cs = Suc (length xs)" by simp
  then obtain c cs' where cs: "cs = c # cs'" "length cs' = length xs" by (cases cs) auto
  with assms(2) Suc n have "ksorted (glue xs (map (inorder h') cs'))"
    by (simp add: ksorted_append)
  then show ?thesis using ksorted_glue_items [of xs "map (inorder h') cs'"] cs n by simp
qed

lemma child_Node [simp]: "length cs1 = i \<Longrightarrow> child (Node xs (cs1 @ c # cs2)) i = Some c"
  by (auto simp: child_def)

lemma set_node_ok:
  "shape h n \<Longrightarrow> numItems n < maxItems \<Longrightarrow> ksorted (inorder h n) \<Longrightarrow>
   set_post h n k v (set_node n k v h)"
proof (induction h arbitrary: n)
  case 0
  obtain xs cs where n: "n = Node xs cs" by (cases n)
  with 0 have cs: "cs = []" and sx: "ksorted xs" and lx: "length xs < 31" by auto
  obtain i b where f: "find_node n k = (i, b)" by (cases "find_node n k")
  show ?case
  proof (cases b)
    case True
    from find_node_found [of n k i] find_node_found_sorted [of n k i] f True n sx
    have i: "i < length xs" "key (xs ! i) = k" "\<forall>x \<in> set (take i xs). key x < k" by auto
    have xs: "xs = take i xs @ xs ! i # drop (Suc i) xs"
      using i(1) by (simp add: id_take_nth_drop)
    have u: "upd_list k v xs = xs[i := Item k v]"
      using upd_list_hit [OF i(3) i(2), of v "drop (Suc i) xs"] xs i(1)
      by (simp add: upd_conv_take_nth_drop)
    have lk: "lookup xs k = Some (val (xs ! i))"
      using lookup_hit [of k "take i xs" "xs ! i" "drop (Suc i) xs"] xs i by force
    have "k \<in> key ` set xs" using i by force
    with f True n cs u lk i show ?thesis by (simp add: set_post_def)
  next
    case False
    from find_node_not_found [of n k i] f False n sx
    have i: "i \<le> length xs" "\<forall>x \<in> set (take i xs). key x < k" "\<forall>x \<in> set (drop i xs). k < key x"
      by auto
    have u: "upd_list k v xs = insert_at i (Item k v) xs"
      using upd_list_ins [OF i(2) i(3), of v] by (simp add: insert_at_def)
    have "set xs = set (take i xs) \<union> set (drop i xs)"
      by (metis append_take_drop_id set_append)
    with i have nk: "k \<notin> key ` set xs" by auto
    then have lk: "lookup xs k = None" by (rule lookup_None)
    from f False n cs u lk nk lx i show ?thesis by (simp add: set_post_def insert_at_def)
  qed
next
  case (Suc h)
  obtain xs cs where n: "n = Node xs cs" by (cases n)
  with Suc.prems have lcs: "length cs = Suc (length xs)" and lx: "length xs < 31"
    and kids: "\<forall>c \<in> set cs. 12 \<le> numItems c \<and> numItems c < 31 \<and> shape h c"
    by auto
  have sx: "ksorted xs" using ksorted_inorder_items [OF Suc.prems(1) Suc.prems(3)] n by simp
  obtain i b where f: "find_node n k = (i, b)" by (cases "find_node n k")
  show ?case
  proof (cases b)
    case True
    from find_node_found [of n k i] f True n
    have i: "i < length xs" "key (xs ! i) = k" by auto
    obtain xs1 x xs2 cs1 l r cs2 where d:
      "xs = xs1 @ x # xs2" "cs = cs1 @ l # r # cs2" "length xs1 = i" "length cs1 = i"
      "length cs2 = length xs2"
      using around_item [OF i(1) lcs] by blast
    have x: "xs ! i = x" "key x = k" using d i by auto
    define P where "P = inorder (Suc h) (Node xs1 (cs1 @ [l]))"
    define Q where "Q = inorder (Suc h) (Node xs2 (r # cs2))"
    have io: "inorder (Suc h) (Node (xs1 @ y # xs2) cs) = P @ y # Q" for y
      using inorder_item [of "cs1 @ [l]" xs1 "r # cs2" h y xs2] d by (simp add: P_def Q_def)
    have "ksorted (P @ x # Q)" using Suc.prems(3) n io [of x] d by simp
    then have below: "\<forall>a \<in> set P. key a < k" using x by (auto simp: ksorted_append)
    have u: "upd_list k v (P @ x # Q) = P @ Item k v # Q"
      using upd_list_hit [OF below x(2)] by simp
    have lk: "lookup (P @ x # Q) k = Some (val x)"
      using lookup_hit [of k P x Q] below x by force
    have res: "set_node n k v (Suc h) = Some (Node (xs1 @ Item k v # xs2) cs, val x, True)"
      using f True n d x by simp
    have "shape (Suc h) (Node (xs1 @ Item k v # xs2) cs)"
      using lcs kids d by simp
    then show ?thesis
      unfolding res set_post_def using io [of x] io [of "Item k v"] u lk n d x(2) by simp
  next
    case False
    from find_node_not_found [of n k i] f False n sx
    have i: "i \<le> length xs" "\<forall>x \<in> set (take i xs). key x < k" "\<forall>x \<in> set (drop i xs). k < key x"
      by auto
    obtain xs1 xs2 cs1 c cs2 where d:
      "xs = xs1 @ xs2" "cs = cs1 @ c # cs2" "length xs1 = i" "length cs1 = i"
      "length cs2 = length xs2"
      using around_child [OF i(1) lcs] by blast
    define A where "A = lead (map (inorder h) cs1) xs1"
    define C where "C = glue xs2 (map (inorder h) cs2)"
    have io: "inorder (Suc h) (Node xs (cs1 @ c' # cs2)) = A @ inorder h c' @ C" for c'
      using inorder_mid [of cs1 xs1 h xs2 c' cs2] d by (simp add: A_def C_def)
    have sorted: "ksorted (A @ inorder h c @ C)" using Suc.prems(3) n io [of c] d by simp
    have below: "\<forall>a \<in> set A. key a < k"
      unfolding A_def using sorted i(2) d by (intro lead_below) (auto simp: ksorted_append A_def)
    have above: "\<forall>a \<in> set C. k < key a"
      unfolding C_def using sorted i(3) d by (intro glue_above) (auto simp: ksorted_append C_def)
    have c: "12 \<le> numItems c" "numItems c < 31" "shape h c" using kids d by auto
    have sc: "ksorted (inorder h c)" using sorted by (simp add: ksorted_append)
    have "set_post h c k v (set_node c k v h)"
      using Suc.IH [OF c(3) _ sc] c(2) by simp
    then obtain c' prev rep where r: "set_node c k v h = Some (c', prev, rep)"
      and c': "shape h c'" "inorder h c' = upd_list k v (inorder h c)"
        "rep = (k \<in> key ` set (inorder h c))"
        "prev = (case lookup (inorder h c) k of None \<Rightarrow> None | Some w \<Rightarrow> w)"
        "numItems c \<le> numItems c'" "numItems c' \<le> Suc (numItems c)"
        "rep \<longrightarrow> numItems c' = numItems c"
      by (auto simp: set_post_def split: option.splits)
    have nk: "k \<notin> key ` set A" "k \<notin> key ` set C" using below above by auto
    have u: "upd_list k v (A @ inorder h c @ C) = A @ inorder h c' @ C"
      using upd_list_mid [OF below above] c'(2) by simp
    have lk: "lookup (A @ inorder h c @ C) k = lookup (inorder h c) k"
      using nk by (simp add: lookup_left lookup_right)
    have mem: "(k \<in> key ` set (A @ inorder h c @ C)) = rep"
      using nk c'(3) by auto
    have ch: "child n i = Some c" using n d by simp
    show ?thesis
    proof (cases "\<not> rep \<and> numItems c' = maxItems")
      case True
      obtain l r m where sp: "split_node c' h = (l, r, m)" by (cases "split_node c' h") auto
      from split_node_ok [OF c'(1) _ sp] True
      have s: "shape h l" "shape h r" "numItems l = 15" "numItems r = 15"
        "inorder h c' = inorder h l @ m # inorder h r" by auto
      define n' where "n' = Node (xs1 @ m # xs2) (cs1 @ l # r # cs2)"
      have res: "set_node n k v (Suc h) = Some (n', prev, False)"
        using f False n ch r True sp lx d by (simp add: n'_def)
      have "inorder (Suc h) n' = A @ inorder h l @ m # inorder h r @ C"
        using inorder_mid [of cs1 xs1 h "m # xs2" l "r # cs2"] d by (simp add: A_def C_def n'_def)
      then have io': "inorder (Suc h) n' = A @ inorder h c' @ C" using s by simp
      have sh: "shape (Suc h) n'"
        using kids d s by (auto simp: n'_def)
      show ?thesis
        unfolding res set_post_def using io' sh u lk mem True io [of c] n d c'(4)
        by (simp add: n'_def)
    next
      case False
      define n' where "n' = Node xs (cs1 @ c' # cs2)"
      have res: "set_node n k v (Suc h) = Some (n', prev, rep)"
        using f \<open>\<not> b\<close> n ch r False d by (auto simp: n'_def)
      have "numItems c' < 31" using False c' c by (cases rep) auto
      then have sh: "shape (Suc h) n'"
        using kids d c' c lcs by (auto simp: n'_def)
      show ?thesis
        unfolding res set_post_def using io [of c'] sh u lk mem io [of c] n d c'(4)
        by (simp add: n'_def)
    qed
  qed
qed

section \<open>The repairs of delete\<close>

lemma shape_children_length: "shape (Suc h) n \<Longrightarrow> length (children n) = Suc (numItems n)"
  by simp

lemma inorder_snoc:
  assumes "length ds = Suc (length ys)"
  shows "inorder (Suc h) (Node (ys @ [y]) (ds @ [d])) = inorder (Suc h) (Node ys ds) @ y # inorder h d"
  using inorder_item [of ds ys "[d]" h y "[]"] assms by simp

lemma inorder_cons:
  assumes "ds \<noteq> []"
  shows "inorder (Suc h) (Node (y # ys) (d # ds)) = inorder h d @ y # inorder (Suc h) (Node ys ds)"
  using inter_cons [of "map (inorder h) ds" "inorder h d" y ys] assms by simp

text \<open>The merged node of "merge left + item + right".\<close>

lemma merge_node_ok:
  fixes x :: "'v item"
  assumes "shape h l" "shape h r"
  defines "m \<equiv> Node (items l @ x # items r)
                     (if Suc h > 1 then children l @ children r else children l)"
  shows "shape h m \<and> inorder h m = inorder h l @ x # inorder h r \<and>
         numItems m = Suc (numItems l + numItems r)"
proof (cases h)
  case 0
  with assms show ?thesis by (simp add: numItems_def)
next
  case (Suc h')
  obtain il dl where l: "l = Node il dl" by (cases l)
  obtain ir dr where r: "r = Node ir dr" by (cases r)
  from assms(1,2) Suc l r have len: "length dl = Suc (length il)" "length dr = Suc (length ir)"
    and kids: "\<forall>c \<in> set dl \<union> set dr. minItems \<le> numItems c \<and> numItems c < maxItems \<and> shape h' c"
    by auto
  have m: "m = Node (il @ x # ir) (dl @ dr)" using Suc l r by (simp add: m_def)
  have "dr \<noteq> []" using len by auto
  then have "inorder (Suc h') m = inorder (Suc h') l @ x # inorder (Suc h') r"
    unfolding m l r using len by (intro inorder_item) auto
  moreover have "shape (Suc h') m" using m len kids by auto
  ultimately show ?thesis using Suc m l r by simp
qed

text \<open>The two children after "move left -> right", and the item that goes up.\<close>

lemma left_right_ok:
  fixes x :: "'v item"
  assumes "shape h l" "shape h r" "numItems l > 0"
  defines "l' \<equiv> Node (take (numItems l - 1) (items l))
                      (if Suc h > 1 then take (numItems l) (children l) else children l)"
      and "y \<equiv> items l ! (numItems l - 1)"
  shows "(Suc h > 1 \<longrightarrow> (\<exists>c. child l (numItems l) = Some c \<and>
            shape h (Node (x # items r) (c # children r)) \<and>
            inorder h l' @ y # inorder h (Node (x # items r) (c # children r)) =
              inorder h l @ x # inorder h r)) \<and>
         (\<not> Suc h > 1 \<longrightarrow>
            shape h (Node (x # items r) (children r)) \<and>
            inorder h l' @ y # inorder h (Node (x # items r) (children r)) =
              inorder h l @ x # inorder h r) \<and>
         shape h l' \<and> numItems l' = numItems l - 1"
proof -
  obtain il dl where l: "l = Node il dl" by (cases l)
  obtain ir dr where r: "r = Node ir dr" by (cases r)
  from assms(3) l have "il \<noteq> []" by auto
  then obtain il' z where il: "il = il' @ [z]" by (cases il rule: rev_cases) auto
  have y: "y = z" using l il by (simp add: y_def)
  show ?thesis
  proof (cases h)
    case 0
    with assms(1,2) l r il y show ?thesis by (simp add: l'_def)
  next
    case (Suc h')
    from assms(1,2) Suc l r have len: "length dl = Suc (length il)" "length dr = Suc (length ir)"
      and kids: "\<forall>c \<in> set dl \<union> set dr. minItems \<le> numItems c \<and> numItems c < maxItems \<and> shape h' c"
      by auto
    from len il obtain dl' c where dl: "dl = dl' @ [c]" "length dl' = Suc (length il')"
      by (cases dl rule: rev_cases) auto
    have ch: "child l (numItems l) = Some c"
      using l il dl by (simp add: child_def nth_append)
    have l': "l' = Node il' dl'" using Suc l il dl by (simp add: l'_def)
    have io_l: "inorder (Suc h') l = inorder (Suc h') l' @ z # inorder h' c"
      unfolding l l' il dl(1) using dl(2) by (rule inorder_snoc)
    have "dr \<noteq> []" using len by auto
    then have io_r: "inorder (Suc h') (Node (x # ir) (c # dr)) = inorder h' c @ x # inorder (Suc h') r"
      unfolding r by (rule inorder_cons)
    have "shape (Suc h') (Node (x # ir) (c # dr))" using len kids dl by auto
    moreover have "shape (Suc h') l'" using l' dl kids by auto
    ultimately show ?thesis using Suc ch io_l io_r y r l' l il by simp
  qed
qed

text \<open>The two children after "move right -> left", and the item that goes up.\<close>

lemma right_left_ok:
  fixes x :: "'v item"
  assumes "shape h l" "shape h r" "numItems r > 0"
  defines "r' \<equiv> Node (drop 1 (items r)) (if Suc h > 1 then drop 1 (children r) else children r)"
      and "y \<equiv> items r ! 0"
  shows "(Suc h > 1 \<longrightarrow> (\<exists>c. child r 0 = Some c \<and>
            shape h (Node (items l @ [x]) (children l @ [c])) \<and>
            inorder h (Node (items l @ [x]) (children l @ [c])) @ y # inorder h r' =
              inorder h l @ x # inorder h r)) \<and>
         (\<not> Suc h > 1 \<longrightarrow>
            shape h (Node (items l @ [x]) (children l)) \<and>
            inorder h (Node (items l @ [x]) (children l)) @ y # inorder h r' =
              inorder h l @ x # inorder h r) \<and>
         shape h r' \<and> numItems r' = numItems r - 1"
proof -
  obtain il dl where l: "l = Node il dl" by (cases l)
  obtain ir dr where r: "r = Node ir dr" by (cases r)
  from assms(3) r obtain z ir' where ir: "ir = z # ir'" by (cases ir) auto
  have y: "y = z" using r ir by (simp add: y_def)
  show ?thesis
  proof (cases h)
    case 0
    with assms(1,2) l r ir y show ?thesis by (simp add: r'_def)
  next
    case (Suc h')
    from assms(1,2) Suc l r have len: "length dl = Suc (length il)" "length dr = Suc (length ir)"
      and kids: "\<forall>c \<in> set dl \<union> set dr. minItems \<le> numItems c \<and> numItems c < maxItems \<and> shape h' c"
      by auto
    from len ir obtain c dr' where dr: "dr = c # dr'" "length dr' = Suc (length ir')"
      by (cases dr) auto
    have ch: "child r 0 = Some c" using r dr by (simp add: child_def)
    have r': "r' = Node ir' dr'" using Suc r ir dr by (simp add: r'_def)
    have "dr' \<noteq> []" using dr by auto
    then have io_r: "inorder (Suc h') r = inorder h' c @ z # inorder (Suc h') r'"
      unfolding r r' ir dr(1) by (rule inorder_cons)
    have io_l: "inorder (Suc h') (Node (il @ [x]) (dl @ [c])) = inorder (Suc h') l @ x # inorder h' c"
      unfolding l using len(1) by (rule inorder_snoc)
    have "shape (Suc h') (Node (il @ [x]) (dl @ [c]))" using len kids dr by auto
    moreover have "shape (Suc h') r'" using r' dr kids by auto
    ultimately show ?thesis using Suc ch io_l io_r y l r' r ir by simp
  qed
qed

lemma child_Suc_Node [simp]:
  "length cs1 = i \<Longrightarrow> child (Node xs (cs1 @ l # r # cs2)) (Suc i) = Some r"
  by (auto simp: child_def nth_append)

lemma remove_at_Suc_length [simp]:
  "length xs1 = i \<Longrightarrow> remove_at (Suc i) (xs1 @ x # y # xs2) = xs1 @ x # xs2"
  by (auto simp: remove_at_def)

lemma update_at_Suc_length [simp]:
  "length xs1 = i \<Longrightarrow> (xs1 @ x # y # xs2)[Suc i := z] = xs1 @ x # z # xs2"
  by (auto simp: list_update_append)

lemma inorder_pair:
  "length cs1 = length xs1 \<Longrightarrow>
   inorder (Suc h) (Node (xs1 @ x # xs2) (cs1 @ l # r # cs2)) =
   lead (map (inorder h) cs1) xs1 @ (inorder h l @ x # inorder h r) @
   glue xs2 (map (inorder h) cs2)"
  using inorder_mid [of cs1 xs1 h "x # xs2" l "r # cs2"] by simp

text \<open>
  The choice among the three repairs, for a parent with the children \<open>l\<close> and \<open>r\<close> next
  to each other, one of which is one item short.
\<close>

lemma repair_ok:
  fixes x :: "'v item"
  assumes len: "length cs1 = i" "length xs1 = i" "length cs2 = length xs2"
    and full: "length (xs1 @ x # xs2) < maxItems"
    and others: "\<forall>c \<in> set cs1 \<union> set cs2. minItems \<le> numItems c \<and> numItems c < maxItems \<and> shape h c"
    and l: "shape h l" "numItems l < maxItems"
    and r: "shape h r" "numItems r < maxItems"
    and short: "(numItems l = minItems - 1 \<and> minItems \<le> numItems r) \<or>
                (numItems r = minItems - 1 \<and> minItems \<le> numItems l)"
  defines "n \<equiv> Node (xs1 @ x # xs2) (cs1 @ l # r # cs2)"
  shows "\<exists>n'. (if numItems l + numItems r + 1 < maxItems then merge_children n l r i (Suc h)
               else if numItems l > numItems r then move_left_right n l r i (Suc h)
               else move_right_left n l r i (Suc h)) = Some n' \<and>
              shape (Suc h) n' \<and> inorder (Suc h) n' = inorder (Suc h) n \<and>
              numItems n' \<le> numItems n \<and> numItems n \<le> Suc (numItems n')"
proof -
  define A where "A = lead (map (inorder h) cs1) xs1"
  define C where "C = glue xs2 (map (inorder h) cs2)"
  have io: "inorder (Suc h) (Node (xs1 @ y # xs2) (cs1 @ a # b # cs2)) =
            A @ (inorder h a @ y # inorder h b) @ C" for y a b
    using inorder_pair [of cs1 xs1 h y xs2 a b cs2] len by (simp add: A_def C_def)
  have io1: "inorder (Suc h) (Node (xs1 @ xs2) (cs1 @ a # cs2)) = A @ inorder h a @ C" for a
    using inorder_mid [of cs1 xs1 h xs2 a cs2] len by (simp add: A_def C_def)
  show ?thesis
  proof (cases "numItems l + numItems r + 1 < maxItems")
    case True
    define m where "m = Node (items l @ x # items r)
                          (if Suc h > 1 then children l @ children r else children l)"
    from merge_node_ok [OF l(1) r(1), of x]
    have m: "shape h m" "inorder h m = inorder h l @ x # inorder h r"
      "numItems m = Suc (numItems l + numItems r)"
      by (simp_all add: m_def)
    define n' where "n' = Node (xs1 @ xs2) (cs1 @ m # cs2)"
    have res: "merge_children n l r i (Suc h) = Some n'"
      using full len by (simp add: merge_children_def n_def n'_def m_def)
    have "minItems \<le> numItems m" "numItems m < maxItems"
      using m(3) True short by auto
    then have "shape (Suc h) n'" using others m(1) len by (auto simp: n'_def)
    moreover have "inorder (Suc h) n' = inorder (Suc h) n"
      using io [of x l r] io1 [of m] m(2) by (simp add: n_def n'_def)
    ultimately show ?thesis using True res by (simp add: n_def n'_def)
  next
    case False
    show ?thesis
    proof (cases "numItems l > numItems r")
      case True
      with False short have nl: "numItems r = minItems - 1" "numItems l \<ge> 19" by auto
      then have pos: "numItems l > 0" by simp
      define l' where "l' = Node (take (numItems l - 1) (items l))
                      (if Suc h > 1 then take (numItems l) (children l) else children l)"
      define y where "y = items l ! (numItems l - 1)"
      note lr = left_right_ok [OF l(1) r(1) pos, of x, folded l'_def y_def]
      have l': "shape h l'" "numItems l' = numItems l - 1" using lr by auto
      show ?thesis
      proof (cases "Suc h > 1")
        case h: True
        with lr obtain c where c: "child l (numItems l) = Some c"
          "shape h (Node (x # items r) (c # children r))"
          "inorder h l' @ y # inorder h (Node (x # items r) (c # children r)) =
             inorder h l @ x # inorder h r"
          by auto
        define r' where "r' = Node (x # items r) (c # children r)"
        define n' where "n' = Node (xs1 @ y # xs2) (cs1 @ l' # r' # cs2)"
        have res: "move_left_right n l r i (Suc h) = Some n'"
          using h c(1) len
          by (simp add: move_left_right_def n_def n'_def l'_def r'_def y_def)
        have "numItems r' = Suc (numItems r)" by (simp add: r'_def numItems_def)
        then have "shape (Suc h) n'"
          using others c(2) l' nl l(2) len by (auto simp: n'_def r'_def)
        moreover have "inorder (Suc h) n' = inorder (Suc h) n"
          using io [of x l r] io [of y l' r'] c(3) by (simp add: n_def n'_def r'_def)
        ultimately show ?thesis using False True res by (simp add: n_def n'_def)
      next
        case h: False
        with lr have c: "shape h (Node (x # items r) (children r))"
          "inorder h l' @ y # inorder h (Node (x # items r) (children r)) =
             inorder h l @ x # inorder h r"
          by auto
        define r' where "r' = Node (x # items r) (children r)"
        define n' where "n' = Node (xs1 @ y # xs2) (cs1 @ l' # r' # cs2)"
        have res: "move_left_right n l r i (Suc h) = Some n'"
          using h len
          by (simp add: move_left_right_def n_def n'_def l'_def r'_def y_def)
        have "numItems r' = Suc (numItems r)" by (simp add: r'_def numItems_def)
        then have "shape (Suc h) n'"
          using others c(1) l' nl l(2) len by (auto simp: n'_def r'_def)
        moreover have "inorder (Suc h) n' = inorder (Suc h) n"
          using io [of x l r] io [of y l' r'] c(2) by (simp add: n_def n'_def r'_def)
        ultimately show ?thesis using False True res by (simp add: n_def n'_def)
      qed
    next
      case le: False
      with False short have nl: "numItems l = minItems - 1" "numItems r \<ge> 19" by auto
      then have pos: "numItems r > 0" by simp
      define r' where "r' = Node (drop 1 (items r))
                      (if Suc h > 1 then drop 1 (children r) else children r)"
      define y where "y = items r ! 0"
      note rl = right_left_ok [OF l(1) r(1) pos, of x, folded r'_def y_def]
      have r': "shape h r'" "numItems r' = numItems r - 1" using rl by auto
      show ?thesis
      proof (cases "Suc h > 1")
        case h: True
        with rl obtain c where c: "child r 0 = Some c"
          "shape h (Node (items l @ [x]) (children l @ [c]))"
          "inorder h (Node (items l @ [x]) (children l @ [c])) @ y # inorder h r' =
             inorder h l @ x # inorder h r"
          by auto
        define l' where "l' = Node (items l @ [x]) (children l @ [c])"
        define n' where "n' = Node (xs1 @ y # xs2) (cs1 @ l' # r' # cs2)"
        have res: "move_right_left n l r i (Suc h) = Some n'"
          using h c(1) len l(2) pos
          by (simp add: move_right_left_def n_def n'_def l'_def r'_def y_def)
        have "numItems l' = Suc (numItems l)" by (simp add: l'_def numItems_def)
        then have "shape (Suc h) n'"
          using others c(2) r' nl r(2) len by (auto simp: n'_def l'_def)
        moreover have "inorder (Suc h) n' = inorder (Suc h) n"
          using io [of x l r] io [of y l' r'] c(3) by (simp add: n_def n'_def l'_def)
        ultimately show ?thesis using False le res by (simp add: n_def n'_def)
      next
        case h: False
        with rl have c: "shape h (Node (items l @ [x]) (children l))"
          "inorder h (Node (items l @ [x]) (children l)) @ y # inorder h r' =
             inorder h l @ x # inorder h r"
          by auto
        define l' where "l' = Node (items l @ [x]) (children l)"
        define n' where "n' = Node (xs1 @ y # xs2) (cs1 @ l' # r' # cs2)"
        have res: "move_right_left n l r i (Suc h) = Some n'"
          using h len l(2) pos
          by (simp add: move_right_left_def n_def n'_def l'_def r'_def y_def)
        have "numItems l' = Suc (numItems l)" by (simp add: l'_def numItems_def)
        then have "shape (Suc h) n'"
          using others c(1) r' nl r(2) len by (auto simp: n'_def l'_def)
        moreover have "inorder (Suc h) n' = inorder (Suc h) n"
          using io [of x l r] io [of y l' r'] c(2) by (simp add: n_def n'_def l'_def)
        ultimately show ?thesis using False le res by (simp add: n_def n'_def)
      qed
    qed
  qed
qed

text \<open>
  \<open>rebalance\<close> on a parent all of whose children are well-shaped subtrees with enough
  items, but for the child \<open>i\<close>, which may be one item short.
\<close>

lemma rebalance_ok:
  assumes len: "length xs = length cs1 + length cs2" "0 < length xs" "length xs < maxItems"
    and others: "\<forall>c \<in> set cs1 \<union> set cs2. minItems \<le> numItems c \<and> numItems c < maxItems \<and> shape h c"
    and c: "shape h c" "minItems - 1 \<le> numItems c" "numItems c < maxItems"
  shows "\<exists>n'. rebalance (Node xs (cs1 @ c # cs2)) (length cs1) (Suc h) = Some n' \<and>
              shape (Suc h) n' \<and>
              inorder (Suc h) n' = inorder (Suc h) (Node xs (cs1 @ c # cs2)) \<and>
              numItems n' \<le> length xs \<and> length xs \<le> Suc (numItems n')"
proof (cases "numItems c < minItems")
  case False
  then have "rebalance (Node xs (cs1 @ c # cs2)) (length cs1) (Suc h) = Some (Node xs (cs1 @ c # cs2))"
    by (simp add: rebalance_def)
  moreover have "shape (Suc h) (Node xs (cs1 @ c # cs2))"
    using len others c False by auto
  ultimately show ?thesis by simp
next
  case True
  with c have short: "numItems c = minItems - 1" by simp
  show ?thesis
  proof (cases cs2)
    case Nil
    with len have "cs1 \<noteq> []" "xs \<noteq> []" by auto
    then obtain cs1' l xs1 x where d: "cs1 = cs1' @ [l]" "xs = xs1 @ [x]"
      by (metis rev_exhaust)
    with len Nil have l1: "length xs1 = length cs1'" by simp
    have lg: "minItems \<le> numItems l" "numItems l < maxItems" "shape h l"
      using others d by auto
    define n where "n = Node (xs1 @ x # []) (cs1' @ l # c # [])"
    have nd: "Node xs (cs1 @ c # cs2) = n" "length cs1 = Suc (length cs1')" "length xs = numItems n"
      using d Nil by (simp_all add: n_def)
    have ch: "child n (Suc (length cs1')) = Some c" "child n (length cs1') = Some l"
      "numItems n = Suc (length cs1')"
      using l1 by (simp_all add: n_def)
    have eq: "rebalance n (Suc (length cs1')) (Suc h) =
       (if numItems l + numItems c + 1 < maxItems
        then merge_children n l c (length cs1') (Suc h)
        else if numItems l > numItems c
        then move_left_right n l c (length cs1') (Suc h)
        else move_right_left n l c (length cs1') (Suc h))"
      unfolding rebalance_def using True ch by (simp add: Let_def)
    have "\<exists>n'. (if numItems l + numItems c + 1 < maxItems
               then merge_children n l c (length cs1') (Suc h)
               else if numItems l > numItems c
               then move_left_right n l c (length cs1') (Suc h)
               else move_right_left n l c (length cs1') (Suc h)) = Some n' \<and>
              shape (Suc h) n' \<and> inorder (Suc h) n' = inorder (Suc h) n \<and>
              numItems n' \<le> numItems n \<and> numItems n \<le> Suc (numItems n')"
      unfolding n_def
    proof (rule repair_ok)
      show "length cs1' = length cs1'" "length xs1 = length cs1'" "length ([]::'a node list) = length ([]::'a item list)"
        using l1 by simp_all
      show "length (xs1 @ [x]) < maxItems" using len d by simp
      show "\<forall>c \<in> set cs1' \<union> set []. minItems \<le> numItems c \<and> numItems c < maxItems \<and> shape h c"
        using others d by simp
      show "shape h l" "numItems l < maxItems" "shape h c" "numItems c < maxItems"
        using lg c by simp_all
      show "numItems l = minItems - 1 \<and> minItems \<le> numItems c \<or>
            numItems c = minItems - 1 \<and> minItems \<le> numItems l"
        using short lg by simp
    qed
    then show ?thesis unfolding nd eq .
  next
    case (Cons r cs2')
    define xs1 where "xs1 = take (length cs1) xs"
    define x where "x = xs ! length cs1"
    define xs2 where "xs2 = drop (Suc (length cs1)) xs"
    have d: "xs = xs1 @ x # xs2" "length xs1 = length cs1" "length xs2 = length cs2'"
      using len Cons by (simp_all add: xs1_def x_def xs2_def id_take_nth_drop)
    have rg: "minItems \<le> numItems r" "numItems r < maxItems" "shape h r"
      using others Cons by auto
    define n where "n = Node (xs1 @ x # xs2) (cs1 @ c # r # cs2')"
    have nd: "Node xs (cs1 @ c # cs2) = n" "length xs = numItems n"
      using d Cons by (simp_all add: n_def)
    have ch: "child n (Suc (length cs1)) = Some r" "child n (length cs1) = Some c"
      "numItems n \<noteq> length cs1"
      using d by (simp_all add: n_def)
    have eq: "rebalance n (length cs1) (Suc h) =
       (if numItems c + numItems r + 1 < maxItems
        then merge_children n c r (length cs1) (Suc h)
        else if numItems c > numItems r
        then move_left_right n c r (length cs1) (Suc h)
        else move_right_left n c r (length cs1) (Suc h))"
      unfolding rebalance_def using True ch by (simp add: Let_def)
    have "\<exists>n'. (if numItems c + numItems r + 1 < maxItems
               then merge_children n c r (length cs1) (Suc h)
               else if numItems c > numItems r
               then move_left_right n c r (length cs1) (Suc h)
               else move_right_left n c r (length cs1) (Suc h)) = Some n' \<and>
              shape (Suc h) n' \<and> inorder (Suc h) n' = inorder (Suc h) n \<and>
              numItems n' \<le> numItems n \<and> numItems n \<le> Suc (numItems n')"
      unfolding n_def
    proof (rule repair_ok)
      show "length cs1 = length cs1" "length xs1 = length cs1" "length cs2' = length xs2"
        using d by simp_all
      show "length (xs1 @ x # xs2) < maxItems" using len d by simp
      show "\<forall>c \<in> set cs1 \<union> set cs2'. minItems \<le> numItems c \<and> numItems c < maxItems \<and> shape h c"
        using others Cons by simp
      show "shape h c" "numItems c < maxItems" "shape h r" "numItems r < maxItems"
        using rg c by simp_all
      show "numItems c = minItems - 1 \<and> minItems \<le> numItems r \<or>
            numItems r = minItems - 1 \<and> minItems \<le> numItems c"
        using short rg by simp
    qed
    then show ?thesis unfolding nd eq .
  qed
qed

section \<open>Delete keeps the invariant\<close>

lemma items_subset_inorder: "shape h n \<Longrightarrow> set (items n) \<subseteq> set (inorder h n)"
proof (cases h)
  case 0
  then show ?thesis by simp
next
  case (Suc h')
  assume "shape h n"
  obtain xs cs where n: "n = Node xs cs" by (cases n)
  with \<open>shape h n\<close> Suc have "length cs = Suc (length xs)" by simp
  then obtain c cs' where cs: "cs = c # cs'" "length xs = length cs'" by (cases cs) auto
  have "set xs \<subseteq> set (glue xs (map (inorder h') cs'))"
    using cs by (intro set_glue_items) simp
  then show ?thesis using Suc n cs by auto
qed

lemma inorder_nonempty: "shape h n \<Longrightarrow> 0 < numItems n \<Longrightarrow> inorder h n \<noteq> []"
  using items_subset_inorder [of h n] by (auto simp: numItems_def)

lemma delete_max_ok:
  "shape h n \<Longrightarrow> 0 < numItems n \<Longrightarrow> numItems n < maxItems \<Longrightarrow>
   delmax_post h n (delete_node n True k h)"
proof (induction h arbitrary: n k)
  case 0
  obtain xs cs where n: "n = Node xs cs" by (cases n)
  with 0 obtain ys z where xs: "xs = ys @ [z]" "cs = []"
    by (cases xs rule: rev_cases) auto
  then show ?case using n by (simp add: delmax_post_def)
next
  case (Suc h)
  obtain xs cs where n: "n = Node xs cs" by (cases n)
  with Suc.prems have lcs: "length cs = Suc (length xs)" and lx: "0 < length xs" "length xs < maxItems"
    and kids: "\<forall>c \<in> set cs. minItems \<le> numItems c \<and> numItems c < maxItems \<and> shape h c"
    by auto
  from lcs obtain cs1 c where cs: "cs = cs1 @ [c]" "length cs1 = length xs"
    by (cases cs rule: rev_cases) auto
  have c: "minItems \<le> numItems c" "numItems c < maxItems" "shape h c" using kids cs by auto
  have ch: "child n (numItems n) = Some c" using n cs by simp
  have "delmax_post h c (delete_node c True freeKey h)"
    using Suc.IH [OF c(3) _ c(2)] c(1) by simp
  then obtain c' prev where r: "delete_node c True freeKey h = Some (c', prev, True)"
    and c': "shape h c'" "inorder h c = inorder h c' @ [prev]"
      "numItems c' \<le> numItems c" "numItems c \<le> Suc (numItems c')"
    by (auto simp: delmax_post_def split: option.splits)
  have "\<exists>n'. rebalance (Node xs (cs1 @ c' # [])) (length cs1) (Suc h) = Some n' \<and>
              shape (Suc h) n' \<and>
              inorder (Suc h) n' = inorder (Suc h) (Node xs (cs1 @ c' # [])) \<and>
              numItems n' \<le> length xs \<and> length xs \<le> Suc (numItems n')"
    using cs lx kids c c' by (intro rebalance_ok) auto
  then obtain n' where n': "rebalance (Node xs (cs1 @ [c'])) (length xs) (Suc h) = Some n'"
    "shape (Suc h) n'" "inorder (Suc h) n' = inorder (Suc h) (Node xs (cs1 @ [c']))"
    "numItems n' \<le> length xs" "length xs \<le> Suc (numItems n')"
    using cs by auto
  have res: "delete_node n True k (Suc h) = Some (n', prev, True)"
    using ch r n' n cs by simp
  have io: "inorder (Suc h) (Node xs (cs1 @ [a])) = lead (map (inorder h) cs1) xs @ inorder h a" for a
    using inorder_mid [of cs1 xs h "[]" a "[]"] cs by simp
  show ?case
    unfolding res delmax_post_def using n' io [of c] io [of c'] c'(2) n cs by simp
qed

lemma delete_node_ok:
  "shape h n \<Longrightarrow> 0 < numItems n \<Longrightarrow> numItems n < maxItems \<Longrightarrow> ksorted (inorder h n) \<Longrightarrow>
   del_post h n k (delete_node n False k h)"
proof (induction h arbitrary: n)
  case 0
  obtain xs cs where n: "n = Node xs cs" by (cases n)
  with 0 have cs: "cs = []" and sx: "ksorted xs" by auto
  obtain i b where f: "find_node n k = (i, b)" by (cases "find_node n k")
  show ?case
  proof (cases b)
    case True
    from find_node_found [of n k i] find_node_found_sorted [of n k i] f True n sx
    have i: "i < length xs" "key (xs ! i) = k" "\<forall>x \<in> set (take i xs). key x < k" by auto
    define xs1 where "xs1 = take i xs"
    define xs2 where "xs2 = drop (Suc i) xs"
    have xs: "xs = xs1 @ xs ! i # xs2" "length xs1 = i"
      using i(1) by (simp_all add: id_take_nth_drop xs1_def xs2_def)
    have nk: "k \<notin> key ` set xs1" using i(3) by (auto simp: xs1_def)
    have dl: "del_list k (xs1 @ xs ! i # xs2) = xs1 @ xs2"
      using nk i(2) by (rule del_list_hit)
    have lk: "lookup (xs1 @ xs ! i # xs2) k = Some (val (xs ! i))"
      using nk i(2) by (rule lookup_hit)
    have rm: "remove_at i (xs1 @ xs ! i # xs2) = xs1 @ xs2"
      using xs(2) by simp
    have mem: "k \<in> key ` set xs" using i by force
    have res: "delete_node n False k 0 = Some (Node (xs1 @ xs2) [], xs ! i, True)"
      using f True n cs rm xs(1) by simp
    have lens: "length xs = Suc (length xs1 + length xs2)"
      using i(1) by (simp add: xs1_def xs2_def)
    have "del_list k xs = xs1 @ xs2" "lookup xs k = Some (val (xs ! i))"
      using dl lk xs(1) by simp_all
    then show ?thesis
      unfolding res del_post_def using n mem lens by simp
  next
    case False
    from find_node_not_found [of n k i] f False n sx
    have i: "i \<le> length xs" "\<forall>x \<in> set (take i xs). key x < k" "\<forall>x \<in> set (drop i xs). k < key x"
      by auto
    have "set xs = set (take i xs) \<union> set (drop i xs)"
      by (metis append_take_drop_id set_append)
    with i have nk: "k \<notin> key ` set xs" by auto
    from f False n cs nk show ?thesis by (simp add: del_post_def)
  qed
next
  case (Suc h)
  obtain xs cs where n: "n = Node xs cs" by (cases n)
  with Suc.prems have lcs: "length cs = Suc (length xs)" and lx: "0 < length xs" "length xs < maxItems"
    and kids: "\<forall>c \<in> set cs. minItems \<le> numItems c \<and> numItems c < maxItems \<and> shape h c"
    by auto
  have sx: "ksorted xs" using ksorted_inorder_items [OF Suc.prems(1) Suc.prems(4)] n by simp
  obtain i b where f: "find_node n k = (i, b)" by (cases "find_node n k")
  show ?case
  proof (cases b)
    case True
    from find_node_found [of n k i] f True n
    have i: "i < length xs" "key (xs ! i) = k" by auto
    obtain xs1 x xs2 cs1 l r cs2 where d:
      "xs = xs1 @ x # xs2" "cs = cs1 @ l # r # cs2" "length xs1 = i" "length cs1 = i"
      "length cs2 = length xs2"
      using around_item [OF i(1) lcs] by blast
    have x: "xs ! i = x" "key x = k" using d i by auto
    define A where "A = lead (map (inorder h) cs1) xs1"
    define C where "C = glue xs2 (map (inorder h) cs2)"
    have io: "inorder (Suc h) (Node (xs1 @ y # xs2) (cs1 @ a # r # cs2)) =
              A @ (inorder h a @ y # inorder h r) @ C" for y a
      using inorder_pair [of cs1 xs1 h y xs2 a r cs2] d by (simp add: A_def C_def)
    have sorted: "ksorted (A @ (inorder h l @ x # inorder h r) @ C)"
      using Suc.prems(4) n io [of x l] d by simp
    have l: "minItems \<le> numItems l" "numItems l < maxItems" "shape h l" using kids d by auto
    have ch: "child n i = Some l" using n d by simp
    have "delmax_post h l (delete_node l True freeKey h)"
      using delete_max_ok [OF l(3) _ l(2)] l(1) by simp
    then obtain l' mx where dm: "delete_node l True freeKey h = Some (l', mx, True)"
      and l': "shape h l'" "inorder h l = inorder h l' @ [mx]"
        "numItems l' \<le> numItems l" "numItems l \<le> Suc (numItems l')"
      by (auto simp: delmax_post_def split: option.splits)
    have "\<exists>n'. rebalance (Node (xs1 @ mx # xs2) (cs1 @ l' # r # cs2)) (length cs1) (Suc h) = Some n' \<and>
              shape (Suc h) n' \<and>
              inorder (Suc h) n' = inorder (Suc h) (Node (xs1 @ mx # xs2) (cs1 @ l' # r # cs2)) \<and>
              numItems n' \<le> length (xs1 @ mx # xs2) \<and> length (xs1 @ mx # xs2) \<le> Suc (numItems n')"
      using d lx kids l l' by (intro rebalance_ok) auto
    then obtain n' where n':
      "rebalance (Node (xs1 @ mx # xs2) (cs1 @ l' # r # cs2)) i (Suc h) = Some n'"
      "shape (Suc h) n'"
      "inorder (Suc h) n' = inorder (Suc h) (Node (xs1 @ mx # xs2) (cs1 @ l' # r # cs2))"
      "numItems n' \<le> length xs" "length xs \<le> Suc (numItems n')"
      using d by auto
    have res: "delete_node n False k (Suc h) = Some (n', x, True)"
      using f True n ch dm n' d x by simp
    have nk: "k \<notin> key ` set (A @ inorder h l)"
      using sorted x(2) by (auto simp: ksorted_append)
    have dl: "del_list k ((A @ inorder h l) @ x # inorder h r @ C) = (A @ inorder h l) @ inorder h r @ C"
      using nk x(2) by (rule del_list_hit)
    have lk: "lookup ((A @ inorder h l) @ x # inorder h r @ C) k = Some (val x)"
      using nk x(2) by (rule lookup_hit)
    have mem: "k \<in> key ` set (inorder (Suc h) n)"
      using io [of x l] n d x(2) by force
    show ?thesis
      unfolding res del_post_def using mem n' io [of x l] io [of mx l'] l'(2) dl lk n d
      by simp
  next
    case False
    from find_node_not_found [of n k i] f False n sx
    have i: "i \<le> length xs" "\<forall>x \<in> set (take i xs). key x < k" "\<forall>x \<in> set (drop i xs). k < key x"
      by auto
    obtain xs1 xs2 cs1 c cs2 where d:
      "xs = xs1 @ xs2" "cs = cs1 @ c # cs2" "length xs1 = i" "length cs1 = i"
      "length cs2 = length xs2"
      using around_child [OF i(1) lcs] by blast
    define A where "A = lead (map (inorder h) cs1) xs1"
    define C where "C = glue xs2 (map (inorder h) cs2)"
    have io: "inorder (Suc h) (Node xs (cs1 @ c' # cs2)) = A @ inorder h c' @ C" for c'
      using inorder_mid [of cs1 xs1 h xs2 c' cs2] d by (simp add: A_def C_def)
    have sorted: "ksorted (A @ inorder h c @ C)" using Suc.prems(4) n io [of c] d by simp
    have below: "\<forall>a \<in> set A. key a < k"
      unfolding A_def using sorted i(2) d by (intro lead_below) (auto simp: ksorted_append A_def)
    have above: "\<forall>a \<in> set C. k < key a"
      unfolding C_def using sorted i(3) d by (intro glue_above) (auto simp: ksorted_append C_def)
    have nk: "k \<notin> key ` set A" "k \<notin> key ` set C" using below above by auto
    have c: "minItems \<le> numItems c" "numItems c < maxItems" "shape h c" using kids d by auto
    have sc: "ksorted (inorder h c)" using sorted by (simp add: ksorted_append)
    have ch: "child n i = Some c" using n d by simp
    have "del_post h c k (delete_node c False k h)"
      using Suc.IH [OF c(3) _ c(2) sc] c(1) by simp
    then obtain c' prev deleted where r: "delete_node c False k h = Some (c', prev, deleted)"
      and c': "deleted = (k \<in> key ` set (inorder h c))"
        "deleted \<Longrightarrow> shape h c' \<and> inorder h c' = del_list k (inorder h c) \<and>
                lookup (inorder h c) k = Some (val prev) \<and>
                numItems c' \<le> numItems c \<and> numItems c \<le> Suc (numItems c')"
        "\<not> deleted \<Longrightarrow> c' = c \<and> prev = zero_item"
      by (auto simp: del_post_def split: option.splits if_splits)
    have mem: "(k \<in> key ` set (inorder (Suc h) n)) = deleted"
      using io [of c] n d nk c'(1) by auto
    show ?thesis
    proof (cases deleted)
      case False
      with c'(3) have same: "c' = c" "prev = zero_item" by auto
      have "delete_node n False k (Suc h) = Some (n, zero_item, False)"
        using f \<open>\<not> b\<close> n ch r False same d by simp
      then show ?thesis using mem False by (simp add: del_post_def)
    next
      case True
      with c'(2) have dc: "shape h c'" "inorder h c' = del_list k (inorder h c)"
        "lookup (inorder h c) k = Some (val prev)"
        "numItems c' \<le> numItems c" "numItems c \<le> Suc (numItems c')" by auto
      have "\<exists>n'. rebalance (Node xs (cs1 @ c' # cs2)) (length cs1) (Suc h) = Some n' \<and>
              shape (Suc h) n' \<and>
              inorder (Suc h) n' = inorder (Suc h) (Node xs (cs1 @ c' # cs2)) \<and>
              numItems n' \<le> length xs \<and> length xs \<le> Suc (numItems n')"
        using d lx kids c dc by (intro rebalance_ok) auto
      then obtain n' where n':
        "rebalance (Node xs (cs1 @ c' # cs2)) i (Suc h) = Some n'"
        "shape (Suc h) n'"
        "inorder (Suc h) n' = inorder (Suc h) (Node xs (cs1 @ c' # cs2))"
        "numItems n' \<le> length xs" "length xs \<le> Suc (numItems n')"
        using d by auto
      have res: "delete_node n False k (Suc h) = Some (n', prev, True)"
        using f \<open>\<not> b\<close> n ch r True n' d by simp
      have dl: "del_list k (A @ inorder h c @ C) = A @ inorder h c' @ C"
        using nk dc(2) by (simp add: del_list_left del_list_right)
      have lk: "lookup (A @ inorder h c @ C) k = Some (val prev)"
        using nk dc(3) by (simp add: lookup_left lookup_right)
      show ?thesis
        unfolding res del_post_def using mem True n' io [of c] io [of c'] dl lk n d
        by simp
    qed
  qed
qed

section \<open>Operations on the handle\<close>

lemma tree_inv_empty: "tree_inv empty_tree"
  by (simp add: tree_inv_def empty_tree_def)

lemma entries_empty: "entries empty_tree = []"
  by (simp add: entries_def empty_tree_def)

lemma tree_inv_sorted: "tree_inv tr \<Longrightarrow> ksorted (entries tr)"
  by (auto simp: tree_inv_def entries_def split: option.splits)


lemma Set_ok:
  assumes "tree_inv tr"
  shows "\<exists>tr' prev rep. Set tr k v = Some (tr', prev, rep) \<and> tree_inv tr' \<and>
           entries tr' = upd_list k v (entries tr) \<and>
           rep = (k \<in> key ` set (entries tr)) \<and>
           prev = (case lookup (entries tr) k of None \<Rightarrow> None | Some w \<Rightarrow> w)"
proof (cases "root tr")
  case None
  with assms have "height tr = 0" by (simp add: tree_inv_def)
  with None show ?thesis
    by (auto simp: Set_def tree_inv_def entries_def ksorted_def)
next
  case (Some r)
  define h where "h = height tr"
  from assms Some have r: "shape h r" "1 \<le> numItems r" "numItems r < maxItems"
    "ksorted (inorder h r)" "len tr = int (length (inorder h r))"
    by (simp_all add: tree_inv_def h_def)
  have e: "entries tr = inorder h r" using Some by (simp add: entries_def h_def)
  have "set_post h r k v (set_node r k v h)" using r by (intro set_node_ok)
  then obtain r' prev rep where s: "set_node r k v h = Some (r', prev, rep)"
    and r': "shape h r'" "inorder h r' = upd_list k v (inorder h r)"
      "rep = (k \<in> key ` set (inorder h r))"
      "prev = (case lookup (inorder h r) k of None \<Rightarrow> None | Some w \<Rightarrow> w)"
      "numItems r \<le> numItems r'" "numItems r' \<le> Suc (numItems r)"
      "rep \<longrightarrow> numItems r' = numItems r"
    by (auto simp: set_post_def split: option.splits)
  have sorted': "ksorted (inorder h r')" using r'(2) r(4) by (simp add: ksorted_upd_list)
  have len': "int (length (inorder h r')) = len tr + (if rep then 0 else 1)"
    using r'(2,3) r(4,5) by (simp add: length_upd_list)
  show ?thesis
  proof (cases rep)
    case True
    then have "Set tr k v = Some (tr\<lparr>root := Some r'\<rparr>, prev, True)"
      using Some s by (simp add: Set_def h_def)
    moreover have "tree_inv (tr\<lparr>root := Some r'\<rparr>)"
      using r r' sorted' len' True by (simp add: tree_inv_def h_def)
    ultimately show ?thesis using r' e True by (auto simp: entries_def h_def)
  next
    case False
    show ?thesis
    proof (cases "numItems r' = maxItems")
      case full: True
      obtain l rt m where sp: "split_node r' h = (l, rt, m)" by (cases "split_node r' h") auto
      from split_node_ok [OF r'(1) full sp]
      have p: "shape h l" "shape h rt" "numItems l = 15" "numItems rt = 15"
        "inorder h r' = inorder h l @ m # inorder h rt" by auto
      define tr' where "tr' = tr\<lparr>root := Some (Node [m] [l, rt]), height := height tr + 1,
                                len := len tr + 1\<rparr>"
      have res: "Set tr k v = Some (tr', prev, False)"
        using Some s False full sp by (simp add: Set_def h_def tr'_def)
      have io: "inorder (Suc h) (Node [m] [l, rt]) = inorder h r'" using p by simp
      have "tree_inv tr'"
        using p io sorted' len' False by (simp add: tree_inv_def tr'_def h_def)
      moreover have "entries tr' = inorder h r'" using io by (simp add: entries_def tr'_def h_def)
      ultimately show ?thesis using res r' e False by auto
    next
      case nf: False
      define tr' where "tr' = tr\<lparr>root := Some r', len := len tr + 1\<rparr>"
      have res: "Set tr k v = Some (tr', prev, False)"
        using Some s False nf by (simp add: Set_def h_def tr'_def)
      have "numItems r' < maxItems" "1 \<le> numItems r'" using nf r' r by auto
      then have "tree_inv tr'"
        using r' sorted' len' False by (simp add: tree_inv_def tr'_def h_def)
      moreover have "entries tr' = inorder h r'" by (simp add: entries_def tr'_def h_def)
      ultimately show ?thesis using res r' e False by auto
    qed
  qed
qed

lemma Delete_ok:
  assumes "tree_inv tr"
  shows "\<exists>tr' prev deleted. Delete tr k = Some (tr', prev, deleted) \<and> tree_inv tr' \<and>
           entries tr' = del_list k (entries tr) \<and>
           deleted = (k \<in> key ` set (entries tr)) \<and>
           prev = (case lookup (entries tr) k of None \<Rightarrow> None | Some w \<Rightarrow> w) \<and>
           (\<not> deleted \<longrightarrow> tr' = tr)"
proof (cases "root tr")
  case None
  with assms show ?thesis by (auto simp: Delete_def entries_def)
next
  case (Some r)
  define h where "h = height tr"
  from assms Some have r: "shape h r" "1 \<le> numItems r" "numItems r < maxItems"
    "ksorted (inorder h r)" "len tr = int (length (inorder h r))"
    by (simp_all add: tree_inv_def h_def)
  have e: "entries tr = inorder h r" using Some by (simp add: entries_def h_def)
  have "del_post h r k (delete_node r False k h)" using r by (intro delete_node_ok) auto
  then obtain r' prev deleted where s: "delete_node r False k h = Some (r', prev, deleted)"
    and r': "deleted = (k \<in> key ` set (inorder h r))"
      "deleted \<Longrightarrow> shape h r' \<and> inorder h r' = del_list k (inorder h r) \<and>
                lookup (inorder h r) k = Some (val prev) \<and>
                numItems r' \<le> numItems r \<and> numItems r \<le> Suc (numItems r')"
      "\<not> deleted \<Longrightarrow> r' = r \<and> prev = zero_item"
    by (auto simp: del_post_def split: option.splits if_splits)
  show ?thesis
  proof (cases deleted)
    case False
    with r'(3) have same: "r' = r" by simp
    have "tr\<lparr>root := Some r\<rparr> = tr" using Some by simp
    then have "Delete tr k = Some (tr, None, False)"
      using Some s False same by (simp add: Delete_def h_def)
    moreover have "del_list k (entries tr) = entries tr" "lookup (entries tr) k = None"
      using False r'(1) e by (simp_all add: del_list_absent lookup_None)
    ultimately show ?thesis using assms False r'(1) e by auto
  next
    case True
    with r'(2) have d: "shape h r'" "inorder h r' = del_list k (inorder h r)"
      "lookup (inorder h r) k = Some (val prev)"
      "numItems r' \<le> numItems r" "numItems r \<le> Suc (numItems r')" by auto
    have sorted': "ksorted (inorder h r')" using d(2) r(4) by (simp add: ksorted_del_list)
    have "inorder h r \<noteq> []" using True r'(1) by auto
    then obtain m where m: "length (inorder h r) = Suc m" by (cases "inorder h r") auto
    moreover have "length (inorder h r') = length (inorder h r) - 1"
      using d(2) True r'(1) by (simp add: length_del_list)
    ultimately have len': "int (length (inorder h r')) = len tr - 1"
      using r(5) by simp
    have pv: "(case lookup (entries tr) k of None \<Rightarrow> None | Some w \<Rightarrow> w) = val prev"
      using d(3) e by simp
    show ?thesis
    proof (cases "len tr - 1 = 0")
      case z: True
      define tr' where "tr' = tr\<lparr>root := None, height := 0, len := len tr - 1\<rparr>"
      have res: "Delete tr k = Some (tr', val prev, True)"
        using Some s True z by (simp add: Delete_def h_def tr'_def Let_def)
      have "inorder h r' = []" using len' z by simp
      then have "entries tr' = del_list k (entries tr)" using d(2) e by (simp add: entries_def tr'_def)
      moreover have "tree_inv tr'" using z by (simp add: tree_inv_def tr'_def)
      ultimately show ?thesis using res pv True r'(1) e by auto
    next
      case nz: False
      then have ne: "inorder h r' \<noteq> []" using len' by auto
      show ?thesis
      proof (cases "numItems r' = 0")
        case shrink: True
        have "h \<noteq> 0"
        proof
          assume "h = 0"
          with shrink have "inorder h r' = []" by (simp add: numItems_def)
          with ne show False by simp
        qed
        then obtain h' where h': "h = Suc h'" by (cases h) auto
        obtain xs cs where n: "r' = Node xs cs" by (cases r')
        with shrink d(1) h' obtain c where c: "xs = []" "cs = [c]"
          "minItems \<le> numItems c" "numItems c < maxItems" "shape h' c"
          by (cases cs) auto
        define tr' where "tr' = tr\<lparr>root := Some c, height := height tr - 1, len := len tr - 1\<rparr>"
        have res: "Delete tr k = Some (tr', val prev, True)"
          using Some s True nz shrink n c h'
          by (simp add: Delete_def h_def tr'_def Let_def child_def)
        have io: "inorder h r' = inorder h' c" using n c h' by simp
        have "tree_inv tr'"
          using c io sorted' len' h' by (simp add: tree_inv_def tr'_def h_def)
        moreover have "entries tr' = inorder h r'"
          using io h' by (simp add: entries_def tr'_def h_def)
        ultimately show ?thesis using res pv True r'(1) e d(2) by auto
      next
        case ns: False
        define tr' where "tr' = tr\<lparr>root := Some r', len := len tr - 1\<rparr>"
        have res: "Delete tr k = Some (tr', val prev, True)"
          using Some s True nz ns by (simp add: Delete_def h_def tr'_def Let_def)
        have "numItems r' < maxItems" "1 \<le> numItems r'" using ns d r by auto
        then have "tree_inv tr'"
          using d sorted' len' by (simp add: tree_inv_def tr'_def h_def)
        moreover have "entries tr' = inorder h r'" by (simp add: entries_def tr'_def h_def)
        ultimately show ?thesis using res pv True r'(1) e d(2) by auto
      qed
    qed
  qed
qed

lemma apply_op_ok:
  assumes "tree_inv tr"
  shows "\<exists>tr'. apply_op tr x = Some tr' \<and> tree_inv tr' \<and>
           lookup (entries tr') = ref_op (lookup (entries tr)) x"
proof (cases x)
  case (SetOp k v)
  from Set_ok [OF assms, of k v] obtain tr' prev rep where
    "Set tr k v = Some (tr', prev, rep)" "tree_inv tr'" "entries tr' = upd_list k v (entries tr)"
    by blast
  then show ?thesis
    using SetOp tree_inv_sorted [OF assms] by (auto simp: lookup_upd_list fun_eq_iff)
next
  case (DeleteOp k)
  from Delete_ok [OF assms, of k] obtain tr' prev deleted where
    "Delete tr k = Some (tr', prev, deleted)" "tree_inv tr'" "entries tr' = del_list k (entries tr)"
    by blast
  then show ?thesis
    using DeleteOp tree_inv_sorted [OF assms] by (auto simp: lookup_del_list fun_eq_iff)
qed

lemma apply_ops_ok:
  "tree_inv tr \<Longrightarrow>
   \<exists>tr'. apply_ops tr ops = Some tr' \<and> tree_inv tr' \<and>
         lookup (entries tr') = foldl ref_op (lookup (entries tr)) ops"
proof (induction ops arbitrary: tr)
  case Nil
  then show ?case by simp
next
  case (Cons x ops)
  from apply_op_ok [OF Cons.prems, of x] obtain t1 where
    t1: "apply_op tr x = Some t1" "tree_inv t1" "lookup (entries t1) = ref_op (lookup (entries tr)) x"
    by blast
  from Cons.IH [OF t1(2)] t1 show ?case by simp
qed

lemma reachable_ok:
  "\<exists>tr. apply_ops empty_tree ops = Some tr \<and> tree_inv tr \<and> lookup (entries tr) = ref_ops ops"
proof -
  have "lookup (entries (empty_tree :: 'a BTree)) = Map.empty"
    by (simp add: entries_empty fun_eq_iff)
  with apply_ops_ok [OF tree_inv_empty, of ops] show ?thesis by (simp add: ref_ops_def)
qed

section \<open>The invariant gives the structural invariants\<close>

lemma set_glue: "length xs = length cs \<Longrightarrow> set (glue xs cs) = set xs \<union> \<Union> (set ` set cs)"
  by (induction xs cs rule: list_induct2) auto

lemma set_inter:
  "length cs = Suc (length xs) \<Longrightarrow> set (inter cs xs) = set xs \<union> \<Union> (set ` set cs)"
  by (cases cs) (auto simp: set_glue)

lemma keys_inorder: "shape h n \<Longrightarrow> key ` set (inorder h n) = keys_of n"
proof (induction h arbitrary: n)
  case 0
  then show ?case by (cases n) auto
next
  case (Suc h)
  obtain xs cs where n: "n = Node xs cs" by (cases n)
  with Suc.prems have l: "length cs = Suc (length xs)" and k: "\<forall>c \<in> set cs. shape h c" by auto
  have "set (inorder (Suc h) n) = set xs \<union> \<Union> (set ` set (map (inorder h) cs))"
    using set_inter [of "map (inorder h) cs" xs] l n by simp
  then have "key ` set (inorder (Suc h) n) = key ` set xs \<union> (\<Union>c \<in> set cs. key ` set (inorder h c))"
    by auto
  also have "\<dots> = key ` set xs \<union> (\<Union>c \<in> set cs. keys_of c)"
    using Suc.IH k by simp
  finally show ?case using n by simp
qed





section \<open>The walks visit the entries in order\<close>

lemma visit_append:
  "visit iter (A @ B) s =
     (case visit iter A s of (False, s') \<Rightarrow> (False, s') | (True, s') \<Rightarrow> visit iter B s')"
  by (induction A arbitrary: s) (auto split: prod.splits bool.splits)

lemma lead_append:
  "length cs1 = length xs1 \<Longrightarrow> lead (cs1 @ cs2) (xs1 @ xs2) = lead cs1 xs1 @ lead cs2 xs2"
  by (induction cs1 xs1 rule: list_induct2) auto

lemma scan_leaf_visit: "scan_leaf iter n i s = visit iter (drop i (items n)) s"
proof (induction iter n i s rule: scan_leaf.induct)
  case (1 iter n i s)
  show ?case
  proof (cases "i < numItems n")
    case True
    then have d: "drop i (items n) = items n ! i # drop (Suc i) (items n)"
      by (simp add: Cons_nth_drop_Suc numItems_def)
    show ?thesis
      using True "1.IH" unfolding d
      by (subst scan_leaf.simps) (auto split: prod.splits bool.splits)
  next
    case False
    then show ?thesis by (subst scan_leaf.simps) (simp add: numItems_def)
  qed
qed

lemma scan_inner_visit:
  assumes len: "length (children n) = Suc (numItems n)"
    and rec: "\<And>c s. c \<in> set (children n) \<Longrightarrow> rec c s = Some (visit iter (f c) s)"
  shows "i \<le> numItems n \<Longrightarrow>
         scan_inner rec iter n i s =
         Some (visit iter (inter (drop i (map f (children n))) (drop i (items n))) s)"
proof (induction "numItems n - i" arbitrary: i s)
  case 0
  then have i: "i = numItems n" by simp
  have ch: "child n (numItems n) = Some (children n ! numItems n)"
    using len by (simp add: child_def)
  have "map f (children n) ! numItems n # drop (Suc (numItems n)) (map f (children n)) =
        drop (numItems n) (map f (children n))"
    using len by (intro Cons_nth_drop_Suc) simp
  then have "drop (numItems n) (map f (children n)) = [f (children n ! numItems n)]"
    using len by simp
  moreover have "children n ! numItems n \<in> set (children n)" using len by simp
  ultimately show ?case
    unfolding i using ch rec by (subst scan_inner.simps) (simp add: numItems_def)
next
  case (Suc m)
  then have i: "i < numItems n" by simp
  define c where "c = children n ! i"
  have ch: "child n i = Some c" using i len by (simp add: child_def c_def)
  have cin: "c \<in> set (children n)" using i len by (simp add: c_def)
  have dx: "drop i (items n) = items n ! i # drop (Suc i) (items n)"
    using i by (simp add: Cons_nth_drop_Suc numItems_def)
  have "map f (children n) ! i # drop (Suc i) (map f (children n)) = drop i (map f (children n))"
    using i len by (intro Cons_nth_drop_Suc) simp
  then have dc: "drop i (map f (children n)) = f c # drop (Suc i) (map f (children n))"
    using i len by (simp add: c_def)
  have ne: "drop (Suc i) (map f (children n)) \<noteq> []" using i len by simp
  have io: "inter (drop i (map f (children n))) (drop i (items n)) =
            f c @ items n ! i # inter (drop (Suc i) (map f (children n))) (drop (Suc i) (items n))"
    unfolding dx dc using ne by (rule inter_cons)
  have ih: "scan_inner rec iter n (Suc i) s' =
            Some (visit iter (inter (drop (Suc i) (map f (children n))) (drop (Suc i) (items n))) s')"
    for s'
    using Suc.hyps(1) [of "Suc i" s'] Suc.hyps(2) i by simp
  show ?case
    unfolding io using i ch rec [OF cin] ih
    by (subst scan_inner.simps) (auto simp: visit_append split: prod.splits bool.splits)
qed

lemma scan_node_visit:
  "shape h n \<Longrightarrow> scan_node iter n h s = Some (visit iter (inorder h n) s)"
proof (induction h arbitrary: n s)
  case 0
  then show ?case by (simp add: scan_leaf_visit)
next
  case (Suc h)
  have "scan_inner (\<lambda>c. scan_node iter c h) iter n 0 s =
        Some (visit iter (inter (drop 0 (map (inorder h) (children n))) (drop 0 (items n))) s)"
    using Suc.prems Suc.IH by (intro scan_inner_visit) auto
  then show ?case by simp
qed

lemma reverse_leaf_visit:
  "j \<le> numItems n \<Longrightarrow> reverse_leaf iter n j s = visit iter (rev (take j (items n))) s"
proof (induction j arbitrary: s)
  case 0
  then show ?case by simp
next
  case (Suc j)
  then have "take (Suc j) (items n) = take j (items n) @ [items n ! j]"
    by (simp add: take_Suc_conv_app_nth numItems_def)
  with Suc show ?case by (auto split: prod.splits bool.splits)
qed

lemma reverse_inner_visit:
  assumes len: "length (children n) = Suc (numItems n)"
    and rec: "\<And>c s. c \<in> set (children n) \<Longrightarrow> rec c s = Some (visit iter (rev (f c)) s)"
  shows "j \<le> numItems n \<Longrightarrow>
         reverse_inner rec iter n j s =
         Some (visit iter (rev (lead (take j (map f (children n))) (take j (items n)))) s)"
proof (induction j arbitrary: s)
  case 0
  then show ?case by simp
next
  case (Suc j)
  then have j: "j < numItems n" by simp
  define c where "c = children n ! j"
  have ch: "child n j = Some c" using j len by (simp add: child_def c_def)
  have cin: "c \<in> set (children n)" using j len by (simp add: c_def)
  have tx: "take (Suc j) (items n) = take j (items n) @ [items n ! j]"
    using j by (simp add: take_Suc_conv_app_nth numItems_def)
  have "take (Suc j) (map f (children n)) =
        take j (map f (children n)) @ [map f (children n) ! j]"
    using j len by (intro take_Suc_conv_app_nth) simp
  then have tc: "take (Suc j) (map f (children n)) = take j (map f (children n)) @ [f c]"
    using j len by (simp add: c_def)
  have "lead (take (Suc j) (map f (children n))) (take (Suc j) (items n)) =
        lead (take j (map f (children n))) (take j (items n)) @ f c @ [items n ! j]"
    unfolding tx tc using j len by (subst lead_append) (simp_all add: numItems_def)
  then have io: "rev (lead (take (Suc j) (map f (children n))) (take (Suc j) (items n))) =
        items n ! j # rev (f c) @ rev (lead (take j (map f (children n))) (take j (items n)))"
    by simp
  have ih: "reverse_inner rec iter n j s' =
            Some (visit iter (rev (lead (take j (map f (children n))) (take j (items n)))) s')"
    for s'
    using Suc.IH [of s'] j by simp
  show ?case
    unfolding io using ch rec [OF cin] ih
    by (auto simp: visit_append split: prod.splits bool.splits)
qed

lemma reverse_node_visit:
  "shape h n \<Longrightarrow> reverse_node iter n h s = Some (visit iter (rev (inorder h n)) s)"
proof (induction h arbitrary: n s)
  case 0
  then show ?case by (simp add: reverse_leaf_visit numItems_def)
next
  case (Suc h)
  obtain xs cs where n: "n = Node xs cs" by (cases n)
  with Suc.prems have lcs: "length cs = Suc (length xs)"
    and kids: "\<forall>c \<in> set cs. shape h c" by auto
  from lcs obtain cs1 c where cs: "cs = cs1 @ [c]" "length cs1 = length xs"
    by (cases cs rule: rev_cases) auto
  have ch: "child n (numItems n) = Some c" using n cs by (simp add: child_def nth_append)
  have io: "inorder (Suc h) n = lead (map (inorder h) cs1) xs @ inorder h c"
    using inter_last [of "map (inorder h) cs1" xs "inorder h c"] n cs by simp
  have c: "reverse_node iter c h s = Some (visit iter (rev (inorder h c)) s)"
    using Suc.IH kids cs by simp
  have loop: "reverse_inner (\<lambda>c. reverse_node iter c h) iter n (numItems n) s' =
        Some (visit iter (rev (lead (take (numItems n) (map (inorder h) (children n)))
                                     (take (numItems n) (items n)))) s')" for s'
    using n lcs kids Suc.IH by (intro reverse_inner_visit) auto
  have "take (numItems n) (map (inorder h) (children n)) = map (inorder h) cs1"
    using n cs by simp
  then have loop': "reverse_inner (\<lambda>c. reverse_node iter c h) iter n (numItems n) s' =
        Some (visit iter (rev (lead (map (inorder h) cs1) xs)) s')" for s'
    using loop [of s'] n by simp
  show ?case
    unfolding io using ch c loop'
    by (auto simp: visit_append split: prod.splits bool.splits)
qed

lemma filter_ge_drop:
  "\<forall>a \<in> set A. key a < p \<Longrightarrow> \<forall>c \<in> set C. p \<le> key c \<Longrightarrow>
   filter (\<lambda>x. p \<le> key x) (A @ C) = C"
  by (induction A) (auto simp: filter_id_conv)

lemma filter_le_take:
  "\<forall>a \<in> set A. key a \<le> p \<Longrightarrow> \<forall>c \<in> set C. p < key c \<Longrightarrow>
   filter (\<lambda>x. key x \<le> p) (A @ C) = A"
  by (auto simp: filter_id_conv filter_empty_conv)

lemma ascend_leaf_visit:
  "ascend_loop False rec iter n i s = Some (visit iter (drop i (items n)) s)"
proof (induction "numItems n - i" arbitrary: i s)
  case 0
  then show ?case by (subst ascend_loop.simps) (simp add: numItems_def)
next
  case (Suc m)
  then have i: "i < numItems n" by simp
  have dx: "drop i (items n) = items n ! i # drop (Suc i) (items n)"
    using i by (simp add: Cons_nth_drop_Suc numItems_def)
  have ih: "ascend_loop False rec iter n (Suc i) s' = Some (visit iter (drop (Suc i) (items n)) s')"
    for s'
    using Suc.hyps(1) [of "Suc i" s'] Suc.hyps(2) by simp
  show ?case
    unfolding dx using i ih
    by (subst ascend_loop.simps) (auto split: prod.splits bool.splits)
qed

lemma ascend_inner_visit:
  assumes len: "length (children n) = Suc (numItems n)"
    and rec: "\<And>c s. c \<in> set (children n) \<Longrightarrow> rec c s = Some (visit iter (f c) s)"
  shows "ascend_loop True rec iter n i s =
         Some (visit iter (glue (drop i (items n)) (drop (Suc i) (map f (children n)))) s)"
proof (induction "numItems n - i" arbitrary: i s)
  case 0
  then show ?case by (subst ascend_loop.simps) (simp add: numItems_def)
next
  case (Suc m)
  then have i: "i < numItems n" by simp
  define c where "c = children n ! Suc i"
  have ch: "child n (i + 1) = Some c" using i len by (simp add: child_def c_def)
  have cin: "c \<in> set (children n)" using i len by (simp add: c_def)
  have dx: "drop i (items n) = items n ! i # drop (Suc i) (items n)"
    using i by (simp add: Cons_nth_drop_Suc numItems_def)
  have "map f (children n) ! Suc i # drop (Suc (Suc i)) (map f (children n)) =
        drop (Suc i) (map f (children n))"
    using i len by (intro Cons_nth_drop_Suc) simp
  then have dc: "drop (Suc i) (map f (children n)) = f c # drop (Suc (Suc i)) (map f (children n))"
    using i len by (simp add: c_def)
  have ih: "ascend_loop True rec iter n (Suc i) s' =
            Some (visit iter (glue (drop (Suc i) (items n)) (drop (Suc (Suc i)) (map f (children n)))) s')"
    for s'
    using Suc.hyps(1) [of "Suc i" s'] Suc.hyps(2) by simp
  show ?case
    unfolding dx dc using i ch rec [OF cin] ih
    by (subst ascend_loop.simps) (auto simp: visit_append split: prod.splits bool.splits)
qed

lemma descend_leaf_visit:
  "j \<le> numItems n \<Longrightarrow>
   descend_loop False rec iter n j s = Some (visit iter (rev (take j (items n))) s)"
proof (induction j arbitrary: s)
  case 0
  then show ?case by simp
next
  case (Suc j)
  then have "take (Suc j) (items n) = take j (items n) @ [items n ! j]"
    by (simp add: take_Suc_conv_app_nth numItems_def)
  with Suc show ?case by (auto split: prod.splits bool.splits)
qed

lemma descend_inner_visit:
  assumes len: "length (children n) = Suc (numItems n)"
    and rec: "\<And>c s. c \<in> set (children n) \<Longrightarrow> rec c s = Some (visit iter (rev (f c)) s)"
  shows "j \<le> numItems n \<Longrightarrow>
         descend_loop True rec iter n j s =
         Some (visit iter (rev (lead (take j (map f (children n))) (take j (items n)))) s)"
proof (induction j arbitrary: s)
  case 0
  then show ?case by simp
next
  case (Suc j)
  then have j: "j < numItems n" by simp
  define c where "c = children n ! j"
  have ch: "child n j = Some c" using j len by (simp add: child_def c_def)
  have cin: "c \<in> set (children n)" using j len by (simp add: c_def)
  have tx: "take (Suc j) (items n) = take j (items n) @ [items n ! j]"
    using j by (simp add: take_Suc_conv_app_nth numItems_def)
  have "take (Suc j) (map f (children n)) =
        take j (map f (children n)) @ [map f (children n) ! j]"
    using j len by (intro take_Suc_conv_app_nth) simp
  then have tc: "take (Suc j) (map f (children n)) = take j (map f (children n)) @ [f c]"
    using j len by (simp add: c_def)
  have "lead (take (Suc j) (map f (children n))) (take (Suc j) (items n)) =
        lead (take j (map f (children n))) (take j (items n)) @ f c @ [items n ! j]"
    unfolding tx tc using j len by (subst lead_append) (simp_all add: numItems_def)
  then have io: "rev (lead (take (Suc j) (map f (children n))) (take (Suc j) (items n))) =
        items n ! j # rev (f c) @ rev (lead (take j (map f (children n))) (take j (items n)))"
    by simp
  have ih: "descend_loop True rec iter n j s' =
            Some (visit iter (rev (lead (take j (map f (children n))) (take j (items n)))) s')"
    for s'
    using Suc.IH [of s'] j by simp
  show ?case
    unfolding io using ch rec [OF cin] ih
    by (auto simp: visit_append split: prod.splits bool.splits)
qed

lemma ascend_node_visit:
  "shape h n \<Longrightarrow> ksorted (inorder h n) \<Longrightarrow>
   ascend_node p iter n h s = Some (visit iter (filter (\<lambda>x. p \<le> key x) (inorder h n)) s)"
proof (induction h arbitrary: n s)
  case 0
  obtain xs cs where n: "n = Node xs cs" by (cases n)
  with 0 have sx: "ksorted xs" by simp
  obtain i b where f: "find_node n p = (i, b)" by (cases "find_node n p")
  have "\<forall>a \<in> set (take i xs). key a < p" "\<forall>a \<in> set (drop i xs). p \<le> key a"
  proof -
    show "\<forall>a \<in> set (take i xs). key a < p"
      using find_node_found_sorted [of n p i] find_node_not_found [of n p i] f n sx
      by (cases b) auto
    show "\<forall>a \<in> set (drop i xs). p \<le> key a"
    proof (cases b)
      case True
      from find_node_found [of n p i] find_node_found_sorted [of n p i] f True n sx
      have i: "i < length xs" "key (xs ! i) = p" "\<forall>x \<in> set (drop (Suc i) xs). p < key x" by auto
      have "drop i xs = xs ! i # drop (Suc i) xs" using i(1) by (simp add: Cons_nth_drop_Suc)
      then show ?thesis using i by auto
    next
      case False
      then show ?thesis using find_node_not_found [of n p i] f n sx by fastforce
    qed
  qed
  then have "filter (\<lambda>x. p \<le> key x) (take i xs @ drop i xs) = drop i xs"
    by (rule filter_ge_drop)
  then show ?case using f n by (simp add: ascend_leaf_visit)
next
  case (Suc h)
  obtain xs cs where n: "n = Node xs cs" by (cases n)
  with Suc.prems have lcs: "length cs = Suc (length xs)"
    and kids: "\<forall>c \<in> set cs. shape h c" by auto
  have sx: "ksorted xs" using ksorted_inorder_items [OF Suc.prems] n by simp
  have loop: "ascend_loop True (\<lambda>c. scan_node iter c h) iter n i s' =
      Some (visit iter (glue (drop i (items n)) (drop (Suc i) (map (inorder h) (children n)))) s')"
    for i s'
    using n lcs kids by (intro ascend_inner_visit) (auto simp: scan_node_visit)
  obtain i b where f: "find_node n p = (i, b)" by (cases "find_node n p")
  show ?case
  proof (cases b)
    case True
    from find_node_found [of n p i] f True n
    have i: "i < length xs" "key (xs ! i) = p" by auto
    obtain xs1 x xs2 cs1 l r cs2 where d:
      "xs = xs1 @ x # xs2" "cs = cs1 @ l # r # cs2" "length xs1 = i" "length cs1 = i"
      "length cs2 = length xs2"
      using around_item [OF i(1) lcs] by blast
    have x: "key x = p" using d i by auto
    define A where "A = lead (map (inorder h) cs1) xs1 @ inorder h l"
    define C where "C = x # inorder h r @ glue xs2 (map (inorder h) cs2)"
    have io: "inorder (Suc h) n = A @ C"
      using inorder_pair [of cs1 xs1 h x xs2 l r cs2] n d by (simp add: A_def C_def)
    have "ksorted (A @ C)" using Suc.prems(2) io by simp
    then have "\<forall>a \<in> set A. key a < p" "\<forall>c \<in> set C. p \<le> key c"
      using x by (auto simp: ksorted_append ksorted_Cons C_def intro: less_imp_le)
    then have fl: "filter (\<lambda>x. p \<le> key x) (A @ C) = C" by (rule filter_ge_drop)
    have "glue (drop i (items n)) (drop (Suc i) (map (inorder h) (children n))) = C"
      using n d by (simp add: C_def)
    then show ?thesis using f True loop [of i s] io fl by simp
  next
    case False
    from find_node_not_found [of n p i] f False n sx
    have i: "i \<le> length xs" "\<forall>x \<in> set (take i xs). key x < p" "\<forall>x \<in> set (drop i xs). p < key x"
      by auto
    obtain xs1 xs2 cs1 c cs2 where d:
      "xs = xs1 @ xs2" "cs = cs1 @ c # cs2" "length xs1 = i" "length cs1 = i"
      "length cs2 = length xs2"
      using around_child [OF i(1) lcs] by blast
    define A where "A = lead (map (inorder h) cs1) xs1"
    define C where "C = glue xs2 (map (inorder h) cs2)"
    have io: "inorder (Suc h) n = A @ inorder h c @ C"
      using inorder_mid [of cs1 xs1 h xs2 c cs2] n d by (simp add: A_def C_def)
    have sorted: "ksorted (A @ inorder h c @ C)" using Suc.prems(2) io by simp
    have below: "\<forall>a \<in> set A. key a < p"
      unfolding A_def using sorted i(2) d by (intro lead_below) (auto simp: ksorted_append A_def)
    have above: "\<forall>a \<in> set C. p < key a"
      unfolding C_def using sorted i(3) d by (intro glue_above) (auto simp: ksorted_append C_def)
    have "filter (\<lambda>x. p \<le> key x) A = []" "filter (\<lambda>x. p \<le> key x) C = C"
      using below above by (auto simp: filter_id_conv filter_empty_conv intro: less_imp_le)
    then have fl: "filter (\<lambda>x. p \<le> key x) (A @ inorder h c @ C) =
              filter (\<lambda>x. p \<le> key x) (inorder h c) @ C"
      by simp
    have ch: "child n i = Some c" using n d by (simp add: child_def nth_append)
    have sc: "ksorted (inorder h c)" "shape h c" using sorted kids d by (auto simp: ksorted_append)
    have c: "ascend_node p iter c h s = Some (visit iter (filter (\<lambda>x. p \<le> key x) (inorder h c)) s)"
      using Suc.IH sc by simp
    have "glue (drop i (items n)) (drop (Suc i) (map (inorder h) (children n))) = C"
      using n d by (simp add: C_def)
    then show ?thesis
      unfolding io fl using f False ch c loop [of i]
      by (auto simp: visit_append split: prod.splits bool.splits)
  qed
qed

lemma descend_node_visit:
  "shape h n \<Longrightarrow> ksorted (inorder h n) \<Longrightarrow>
   descend_node p iter n h s = Some (visit iter (rev (filter (\<lambda>x. key x \<le> p) (inorder h n))) s)"
proof (induction h arbitrary: n s)
  case 0
  obtain xs cs where n: "n = Node xs cs" by (cases n)
  with 0 have sx: "ksorted xs" by simp
  obtain i b where f: "find_node n p = (i, b)" by (cases "find_node n p")
  show ?case
  proof (cases b)
    case True
    from find_node_found [of n p i] find_node_found_sorted [of n p i] f True n sx
    have i: "i < length xs" "key (xs ! i) = p" "\<forall>x \<in> set (take i xs). key x < p"
      "\<forall>x \<in> set (drop (Suc i) xs). p < key x" by auto
    have "take (Suc i) xs = take i xs @ [xs ! i]" using i(1) by (simp add: take_Suc_conv_app_nth)
    then have "\<forall>a \<in> set (take (Suc i) xs). key a \<le> p" using i by auto
    then have "filter (\<lambda>x. key x \<le> p) (take (Suc i) xs @ drop (Suc i) xs) = take (Suc i) xs"
      using i(4) by (rule filter_le_take)
    then show ?thesis
      using f True n i(1) descend_leaf_visit [of "Suc i" n "\<lambda>c s. None" iter s]
      by (simp del: descend_loop.simps)
  next
    case False
    from find_node_not_found [of n p i] f False n sx
    have i: "i \<le> length xs" "\<forall>x \<in> set (take i xs). key x < p" "\<forall>x \<in> set (drop i xs). p < key x"
      by auto
    then have "\<forall>a \<in> set (take i xs). key a \<le> p" by auto
    then have "filter (\<lambda>x. key x \<le> p) (take i xs @ drop i xs) = take i xs"
      using i(3) by (rule filter_le_take)
    then show ?thesis using f False n i(1) by (simp add: descend_leaf_visit)
  qed
next
  case (Suc h)
  obtain xs cs where n: "n = Node xs cs" by (cases n)
  with Suc.prems have lcs: "length cs = Suc (length xs)"
    and kids: "\<forall>c \<in> set cs. shape h c" by auto
  have sx: "ksorted xs" using ksorted_inorder_items [OF Suc.prems] n by simp
  have loop: "j \<le> numItems n \<Longrightarrow> descend_loop True (\<lambda>c. reverse_node iter c h) iter n j s' =
      Some (visit iter (rev (lead (take j (map (inorder h) (children n))) (take j (items n)))) s')"
    for j s'
    using n lcs kids by (intro descend_inner_visit) (auto simp: reverse_node_visit)
  obtain i b where f: "find_node n p = (i, b)" by (cases "find_node n p")
  show ?case
  proof (cases b)
    case True
    from find_node_found [of n p i] f True n
    have i: "i < length xs" "key (xs ! i) = p" by auto
    obtain xs1 x xs2 cs1 l r cs2 where d:
      "xs = xs1 @ x # xs2" "cs = cs1 @ l # r # cs2" "length xs1 = i" "length cs1 = i"
      "length cs2 = length xs2"
      using around_item [OF i(1) lcs] by blast
    have x: "key x = p" using d i by auto
    define A where "A = lead (map (inorder h) cs1) xs1 @ inorder h l @ [x]"
    define C where "C = inorder h r @ glue xs2 (map (inorder h) cs2)"
    have io: "inorder (Suc h) n = A @ C"
      using inorder_pair [of cs1 xs1 h x xs2 l r cs2] n d by (simp add: A_def C_def)
    have "ksorted (A @ C)" using Suc.prems(2) io by simp
    then have "\<forall>a \<in> set A. key a \<le> p" "\<forall>c \<in> set C. p < key c"
      using x by (auto simp: ksorted_append ksorted_Cons A_def intro: less_imp_le)
    then have fl: "filter (\<lambda>x. key x \<le> p) (A @ C) = A" by (rule filter_le_take)
    have "lead (take (Suc i) (map (inorder h) (children n))) (take (Suc i) (items n)) =
          lead (map (inorder h) cs1 @ [inorder h l]) (xs1 @ [x])"
      using n d by simp
    also have "\<dots> = A"
      using d by (subst lead_append) (simp_all add: A_def)
    finally have "lead (take (Suc i) (map (inorder h) (children n))) (take (Suc i) (items n)) = A" .
    then show ?thesis
      using f True loop [of "Suc i" s] io fl i(1) n by (simp del: descend_loop.simps)
  next
    case False
    from find_node_not_found [of n p i] f False n sx
    have i: "i \<le> length xs" "\<forall>x \<in> set (take i xs). key x < p" "\<forall>x \<in> set (drop i xs). p < key x"
      by auto
    obtain xs1 xs2 cs1 c cs2 where d:
      "xs = xs1 @ xs2" "cs = cs1 @ c # cs2" "length xs1 = i" "length cs1 = i"
      "length cs2 = length xs2"
      using around_child [OF i(1) lcs] by blast
    define A where "A = lead (map (inorder h) cs1) xs1"
    define C where "C = glue xs2 (map (inorder h) cs2)"
    have io: "inorder (Suc h) n = A @ inorder h c @ C"
      using inorder_mid [of cs1 xs1 h xs2 c cs2] n d by (simp add: A_def C_def)
    have sorted: "ksorted (A @ inorder h c @ C)" using Suc.prems(2) io by simp
    have below: "\<forall>a \<in> set A. key a < p"
      unfolding A_def using sorted i(2) d by (intro lead_below) (auto simp: ksorted_append A_def)
    have above: "\<forall>a \<in> set C. p < key a"
      unfolding C_def using sorted i(3) d by (intro glue_above) (auto simp: ksorted_append C_def)
    have "filter (\<lambda>x. key x \<le> p) A = A" "filter (\<lambda>x. key x \<le> p) C = []"
      using below above by (auto simp: filter_id_conv filter_empty_conv intro: less_imp_le)
    then have fl: "filter (\<lambda>x. key x \<le> p) (A @ inorder h c @ C) =
              A @ filter (\<lambda>x. key x \<le> p) (inorder h c)"
      by simp
    have ch: "child n i = Some c" using n d by (simp add: child_def nth_append)
    have sc: "ksorted (inorder h c)" "shape h c" using sorted kids d by (auto simp: ksorted_append)
    have c: "descend_node p iter c h s =
             Some (visit iter (rev (filter (\<lambda>x. key x \<le> p) (inorder h c))) s)"
      using Suc.IH sc by simp
    have "lead (take i (map (inorder h) (children n))) (take i (items n)) = A"
      using n d by (simp add: A_def)
    then show ?thesis
      unfolding io fl using f False ch c loop [of i] i(1) n
      by (auto simp: visit_append split: prod.splits bool.splits)
  qed
qed

lemma get_node_lookup:
  "shape h n \<Longrightarrow> ksorted (inorder h n) \<Longrightarrow>
   get_node n k h =
     Some (case lookup (inorder h n) k of None \<Rightarrow> (None, False) | Some w \<Rightarrow> (w, True))"
proof (induction h arbitrary: n)
  case 0
  obtain xs cs where n: "n = Node xs cs" by (cases n)
  with 0 have sx: "ksorted xs" by simp
  obtain i b where f: "find_node n k = (i, b)" by (cases "find_node n k")
  show ?case
  proof (cases b)
    case True
    from find_node_found [of n k i] find_node_found_sorted [of n k i] f True n sx
    have i: "i < length xs" "key (xs ! i) = k" "\<forall>x \<in> set (take i xs). key x < k" by auto
    have "k \<notin> key ` set (take i xs)" using i(3) by auto
    then have "lookup (take i xs @ xs ! i # drop (Suc i) xs) k = Some (val (xs ! i))"
      using i(2) by (rule lookup_hit)
    then have "lookup xs k = Some (val (xs ! i))" using i(1) by (simp add: id_take_nth_drop [symmetric])
    then show ?thesis using f True n by simp
  next
    case False
    from find_node_not_found [of n k i] f False n sx
    have i: "\<forall>x \<in> set (take i xs). key x < k" "\<forall>x \<in> set (drop i xs). k < key x" by auto
    have "set xs = set (take i xs) \<union> set (drop i xs)"
      by (metis append_take_drop_id set_append)
    with i have "k \<notin> key ` set xs" by auto
    then have "lookup xs k = None" by (rule lookup_None)
    then show ?thesis using f False n by simp
  qed
next
  case (Suc h)
  obtain xs cs where n: "n = Node xs cs" by (cases n)
  with Suc.prems have lcs: "length cs = Suc (length xs)"
    and kids: "\<forall>c \<in> set cs. shape h c" by auto
  have sx: "ksorted xs" using ksorted_inorder_items [OF Suc.prems] n by simp
  obtain i b where f: "find_node n k = (i, b)" by (cases "find_node n k")
  show ?case
  proof (cases b)
    case True
    from find_node_found [of n k i] f True n
    have i: "i < length xs" "key (xs ! i) = k" by auto
    obtain xs1 x xs2 cs1 l r cs2 where d:
      "xs = xs1 @ x # xs2" "cs = cs1 @ l # r # cs2" "length xs1 = i" "length cs1 = i"
      "length cs2 = length xs2"
      using around_item [OF i(1) lcs] by blast
    have x: "xs ! i = x" "key x = k" using d i by auto
    define A where "A = lead (map (inorder h) cs1) xs1 @ inorder h l"
    define C where "C = inorder h r @ glue xs2 (map (inorder h) cs2)"
    have io: "inorder (Suc h) n = A @ x # C"
      using inorder_pair [of cs1 xs1 h x xs2 l r cs2] n d by (simp add: A_def C_def)
    have "ksorted (A @ x # C)" using Suc.prems(2) io by simp
    then have "k \<notin> key ` set A" using x by (auto simp: ksorted_append)
    then have "lookup (A @ x # C) k = Some (val x)" using x(2) by (rule lookup_hit)
    then show ?thesis using f True n io x by simp
  next
    case False
    from find_node_not_found [of n k i] f False n sx
    have i: "i \<le> length xs" "\<forall>x \<in> set (take i xs). key x < k" "\<forall>x \<in> set (drop i xs). k < key x"
      by auto
    obtain xs1 xs2 cs1 c cs2 where d:
      "xs = xs1 @ xs2" "cs = cs1 @ c # cs2" "length xs1 = i" "length cs1 = i"
      "length cs2 = length xs2"
      using around_child [OF i(1) lcs] by blast
    define A where "A = lead (map (inorder h) cs1) xs1"
    define C where "C = glue xs2 (map (inorder h) cs2)"
    have io: "inorder (Suc h) n = A @ inorder h c @ C"
      using inorder_mid [of cs1 xs1 h xs2 c cs2] n d by (simp add: A_def C_def)
    have sorted: "ksorted (A @ inorder h c @ C)" using Suc.prems(2) io by simp
    have below: "\<forall>a \<in> set A. key a < k"
      unfolding A_def using sorted i(2) d by (intro lead_below) (auto simp: ksorted_append A_def)
    have above: "\<forall>a \<in> set C. k < key a"
      unfolding C_def using sorted i(3) d by (intro glue_above) (auto simp: ksorted_append C_def)
    have nk: "k \<notin> key ` set A" "k \<notin> key ` set C" using below above by auto
    have lk: "lookup (A @ inorder h c @ C) k = lookup (inorder h c) k"
      using nk by (simp add: lookup_left lookup_right)
    have ch: "child n i = Some c" using n d by (simp add: child_def nth_append)
    have sc: "ksorted (inorder h c)" "shape h c" using sorted kids d by (auto simp: ksorted_append)
    show ?thesis
      unfolding io lk using f False ch Suc.IH [OF sc(2) sc(1)] by simp
  qed
qed

section \<open>The entries of a tree and its nodes\<close>

lemma items_inorder: "shape h n \<Longrightarrow> set (inorder h n) = items_of n"
proof (induction h arbitrary: n)
  case 0
  then show ?case by (cases n) auto
next
  case (Suc h)
  obtain xs cs where n: "n = Node xs cs" by (cases n)
  with Suc.prems have l: "length cs = Suc (length xs)" and k: "\<forall>c \<in> set cs. shape h c" by auto
  have "set (inorder (Suc h) n) = set xs \<union> \<Union> (set ` set (map (inorder h) cs))"
    using set_inter [of "map (inorder h) cs" xs] l n by simp
  also have "\<dots> = set xs \<union> (\<Union>c \<in> set cs. items_of c)"
    using Suc.IH k by simp
  finally show ?case using n by simp
qed

lemma length_glue:
  "length xs = length cs \<Longrightarrow> length (glue xs cs) = length xs + sum_list (map length cs)"
  by (induction xs cs rule: list_induct2) auto

lemma length_inorder: "shape h n \<Longrightarrow> length (inorder h n) = count_items n"
proof (induction h arbitrary: n)
  case 0
  then show ?case by (cases n) auto
next
  case (Suc h)
  obtain xs cs where n: "n = Node xs cs" by (cases n)
  with Suc.prems have l: "length cs = Suc (length xs)" and k: "\<forall>c \<in> set cs. shape h c" by auto
  from l obtain c cs' where cs: "cs = c # cs'" "length xs = length cs'" by (cases cs) auto
  have "map (length \<circ> inorder h) cs = map count_items cs"
    using Suc.IH k by (intro map_cong) auto
  then have "sum_list (map (length \<circ> inorder h) cs) = sum_list (map count_items cs)"
    by (rule arg_cong)
  moreover have "length (inorder (Suc h) n) =
        length xs + sum_list (map (length \<circ> inorder h) cs)"
    using n cs length_glue [of xs "map (inorder h) cs'"] by simp
  ultimately show ?case using n by simp
qed

lemma tree_inv_items: "tree_inv tr \<Longrightarrow> set (entries tr) = tree_items tr"
  by (auto simp: tree_inv_def entries_def tree_items_def items_inorder split: option.splits)

lemma tree_inv_count: "tree_inv tr \<Longrightarrow> length (entries tr) = tree_count tr"
  by (auto simp: tree_inv_def entries_def tree_count_def length_inorder split: option.splits)

lemma tree_inv_keys: "tree_inv tr \<Longrightarrow> key ` set (entries tr) = tree_keys tr"
  by (auto simp: tree_inv_def entries_def tree_keys_def keys_inorder split: option.splits)

lemma visit_collect: "visit collect xs s = (True, s @ map pair_of xs)"
  by (induction xs arbitrary: s) (auto simp: collect_def pair_of_def)

lemma Scan_collect: "tree_inv tr \<Longrightarrow> Scan tr collect [] = Some (map pair_of (entries tr))"
  by (auto simp: Scan_def tree_inv_def entries_def scan_node_visit visit_collect
           split: option.splits)

lemma Reverse_collect:
  "tree_inv tr \<Longrightarrow> Reverse tr collect [] = Some (rev (map pair_of (entries tr)))"
  by (auto simp: Reverse_def tree_inv_def entries_def reverse_node_visit visit_collect rev_map
           split: option.splits)

lemma ex_pair_snd: "\<exists>a. x = (a, snd x)"
  by (cases x) simp

lemma Ascend_visit:
  "tree_inv tr \<Longrightarrow>
   Ascend tr p iter s = Some (snd (visit iter (filter (\<lambda>x. p \<le> key x) (entries tr)) s))"
  by (simp add: Ascend_def tree_inv_def entries_def ascend_node_visit ex_pair_snd split: option.splits)

lemma Descend_visit:
  "tree_inv tr \<Longrightarrow>
   Descend tr p iter s = Some (snd (visit iter (rev (filter (\<lambda>x. key x \<le> p) (entries tr))) s))"
  by (simp add: Descend_def tree_inv_def entries_def descend_node_visit ex_pair_snd split: option.splits)

lemma Scan_visit: "tree_inv tr \<Longrightarrow> Scan tr iter s = Some (snd (visit iter (entries tr) s))"
  by (simp add: Scan_def tree_inv_def entries_def scan_node_visit ex_pair_snd split: option.splits)

lemma Reverse_visit:
  "tree_inv tr \<Longrightarrow> Reverse tr iter s = Some (snd (visit iter (rev (entries tr)) s))"
  by (simp add: Reverse_def tree_inv_def entries_def reverse_node_visit ex_pair_snd split: option.splits)

lemma GreaterOrEqual_Ascend: "GreaterOrEqual tr p iter s = Ascend tr p iter s"
  by (simp add: GreaterOrEqual_def Ascend_def)

lemma LessOrEqual_Descend: "LessOrEqual tr p iter s = Descend tr p iter s"
  by (simp add: LessOrEqual_def Descend_def)

lemma Get_lookup:
  "tree_inv tr \<Longrightarrow>
   Get tr k = Some (case lookup (entries tr) k of None \<Rightarrow> (None, False) | Some w \<Rightarrow> (w, True))"
  by (auto simp: Get_def tree_inv_def entries_def get_node_lookup split: option.splits)

lemma lookup_map_of: "lookup xs k = map_of (map pair_of xs) k"
  by (induction xs) (auto simp: pair_of_def)

lemma sorted_pairs: "ksorted xs \<Longrightarrow> sorted_wrt (<) (map fst (map pair_of xs))"
  by (simp add: ksorted_def pair_of_def comp_def)

lemma filter_pairs_ge:
  "filter (\<lambda>e. p \<le> fst e) (map pair_of xs) = map pair_of (filter (\<lambda>x. p \<le> key x) xs)"
  by (induction xs) (auto simp: pair_of_def)

lemma filter_pairs_le:
  "filter (\<lambda>e. fst e \<le> p) (map pair_of xs) = map pair_of (filter (\<lambda>x. key x \<le> p) xs)"
  by (induction xs) (auto simp: pair_of_def)

section \<open>Logged visitors and the tally\<close>

lemma logged_apply:
  "logged f k v (s, log) = (case f k v s of (b, s') \<Rightarrow> (b, (s', log @ [(k, v, b)])))"
  by (simp add: logged_def)

lemma visit_logged_continue:
  "always_continue f \<Longrightarrow>
   \<exists>s'. visit (logged f) xs (s, log) = (True, (s', log @ map (\<lambda>x. (key x, val x, True)) xs))"
proof (induction xs arbitrary: s log)
  case Nil
  then show ?case by simp
next
  case (Cons x xs)
  obtain b s1 where f: "f (key x) (val x) s = (b, s1)" by (cases "f (key x) (val x) s")
  with Cons.prems have b: "b" by (metis always_continue_def fst_conv)
  from Cons.IH [OF Cons.prems, of s1 "log @ [(key x, val x, True)]"] f b
  show ?case by (simp add: logged_apply)
qed

lemma visit_logged_answers:
  "visit (logged f) xs (s, log) = (b, (s', log')) \<Longrightarrow>
   \<exists>ext. log' = log @ ext \<and> False \<notin> set (butlast (map (\<lambda>e. snd (snd e)) ext)) \<and>
         (b \<longrightarrow> False \<notin> set (map (\<lambda>e. snd (snd e)) ext))"
proof (induction xs arbitrary: s log)
  case Nil
  then show ?case by simp
next
  case (Cons x xs)
  obtain a s1 where f: "f (key x) (val x) s = (a, s1)" by (cases "f (key x) (val x) s")
  show ?case
  proof (cases a)
    case False
    with Cons.prems f have "log' = log @ [(key x, val x, False)]"
      by (simp add: logged_apply)
    moreover from Cons.prems f False have "\<not> b" by (simp add: logged_apply)
    ultimately show ?thesis by simp
  next
    case True
    with Cons.prems f have "visit (logged f) xs (s1, log @ [(key x, val x, True)]) = (b, (s', log'))"
      by (simp add: logged_apply)
    from Cons.IH [OF this] obtain ext where
      e: "log' = (log @ [(key x, val x, True)]) @ ext"
         "False \<notin> set (butlast (map (\<lambda>e. snd (snd e)) ext))"
         "b \<longrightarrow> False \<notin> set (map (\<lambda>e. snd (snd e)) ext)"
      by blast
    have "False \<notin> set (butlast (map (\<lambda>e. snd (snd e)) ((key x, val x, True) # ext)))"
      using e(2) by (cases ext) auto
    moreover have "b \<longrightarrow> False \<notin> set (map (\<lambda>e. snd (snd e)) ((key x, val x, True) # ext))"
      using e(3) by simp
    ultimately show ?thesis using e(1) by (intro exI [of _ "(key x, val x, True) # ext"]) simp
  qed
qed

lemma calls_of_visit:
  assumes "\<And>iter st. walk iter st = Some (snd (visit iter xs st))" "always_continue f"
  shows "calls_of walk f s = Some (map pair_of xs)"
proof -
  from visit_logged_continue [OF assms(2), of xs s "[]"] obtain s' where
    "visit (logged f) xs (s, []) = (True, (s', map (\<lambda>x. (key x, val x, True)) xs))" by auto
  then show ?thesis using assms(1) by (simp add: calls_of_def pair_of_def comp_def)
qed

lemma answers_of_visit:
  assumes "\<And>iter st. walk iter st = Some (snd (visit iter xs st))"
  shows "\<exists>bs. answers_of walk f s = Some bs \<and> False \<notin> set (butlast bs)"
proof -
  obtain b s' log' where v: "visit (logged f) xs (s, []) = (b, (s', log'))"
    by (metis surj_pair)
  from visit_logged_answers [OF this] have "False \<notin> set (butlast (map (\<lambda>e. snd (snd e)) log'))"
    by auto
  then show ?thesis using assms v by (simp add: answers_of_def)
qed




section \<open>The read-only methods return their receiver\<close>

lemma put_same: "child n i = Some c \<Longrightarrow> put n i c = n"
  by (cases n) (auto simp: child_def put_def split: if_splits)

lemma keeps_Some [simp]: "keeps t (Some r) = Some (r, t)"
  by (simp add: keeps_def)

lemma keeps_None [simp]: "keeps t None = None"
  by (simp add: keeps_def)

lemma case_keeps [simp]:
  "(case keeps t r of None \<Rightarrow> a | Some p \<Rightarrow> f p) = (case r of None \<Rightarrow> a | Some x \<Rightarrow> f (x, t))"
  by (cases r) simp_all

lemma get_thr_keeps: "get_thr n k h = keeps n (get_node n k h)"
proof (induction h arbitrary: n)
  case 0
  then show ?case by (simp split: prod.splits bool.splits)
next
  case (Suc h)
  then show ?case
    by (auto simp: put_same split: prod.splits bool.splits option.splits)
qed

lemma scan_inner_thr_keeps:
  assumes "\<And>c s. rec' c s = keeps c (rec c s)"
  shows "scan_inner_thr rec' iter n i s = keeps n (scan_inner rec iter n i s)"
proof (induction "numItems n - i" arbitrary: i s)
  case 0
  then show ?case
    by (subst scan_inner_thr.simps, subst scan_inner.simps)
       (auto simp: assms put_same split: option.splits)
next
  case (Suc m)
  then have i: "i < numItems n" by simp
  have ih: "scan_inner_thr rec' iter n (Suc i) s' = keeps n (scan_inner rec iter n (Suc i) s')" for s'
    using Suc.hyps(1) [of "Suc i" s'] Suc.hyps(2) by simp
  show ?case
    using i ih
    by (subst scan_inner_thr.simps, subst scan_inner.simps)
       (auto simp: assms put_same split: option.splits prod.splits bool.splits)
qed

lemma scan_thr_keeps: "scan_thr iter n h s = keeps n (scan_node iter n h s)"
proof (induction h arbitrary: n s)
  case 0
  then show ?case by simp
next
  case (Suc h)
  then show ?case by (simp add: scan_inner_thr_keeps)
qed

lemma reverse_inner_thr_keeps:
  assumes "\<And>c s. rec' c s = keeps c (rec c s)"
  shows "reverse_inner_thr rec' iter n j s = keeps n (reverse_inner rec iter n j s)"
proof (induction j arbitrary: s)
  case 0
  then show ?case by simp
next
  case (Suc j)
  then show ?case
    by (auto simp: assms put_same split: option.splits prod.splits bool.splits)
qed

lemma reverse_thr_keeps: "reverse_thr iter n h s = keeps n (reverse_node iter n h s)"
proof (induction h arbitrary: n s)
  case 0
  then show ?case by simp
next
  case (Suc h)
  then show ?case
    by (auto simp: reverse_inner_thr_keeps put_same split: option.splits prod.splits bool.splits)
qed

lemma ascend_loop_thr_keeps:
  assumes "\<And>c s. rec' c s = keeps c (rec c s)"
  shows "ascend_loop_thr inner rec' iter n i s = keeps n (ascend_loop inner rec iter n i s)"
proof (induction "numItems n - i" arbitrary: i s)
  case 0
  then show ?case
    by (subst ascend_loop_thr.simps, subst ascend_loop.simps) simp
next
  case (Suc m)
  then have i: "i < numItems n" by simp
  have ih: "ascend_loop_thr inner rec' iter n (Suc i) s' =
            keeps n (ascend_loop inner rec iter n (Suc i) s')" for s'
    using Suc.hyps(1) [of "Suc i" s'] Suc.hyps(2) by simp
  show ?case
    using i ih
    by (subst ascend_loop_thr.simps, subst ascend_loop.simps)
       (auto simp: assms put_same split: option.splits prod.splits bool.splits)
qed

lemma ascend_thr_keeps: "ascend_thr p iter n h s = keeps n (ascend_node p iter n h s)"
proof (induction h arbitrary: n s)
  case 0
  have "\<And>c s. (\<lambda>c s. None) c s = keeps c ((\<lambda>c s. None) c s)" by simp
  then show ?case
    by (auto simp: ascend_loop_thr_keeps [where rec = "\<lambda>c s. None"] split: prod.splits)
next
  case (Suc h)
  have l: "ascend_loop_thr True (\<lambda>c. scan_thr iter c h) iter n i s' =
        keeps n (ascend_loop True (\<lambda>c. scan_node iter c h) iter n i s')" for i s' n
    by (rule ascend_loop_thr_keeps) (simp add: scan_thr_keeps)
  show ?case
    using Suc
    by (auto simp: l put_same split: option.splits prod.splits bool.splits)
qed

lemma descend_loop_thr_keeps:
  assumes "\<And>c s. rec' c s = keeps c (rec c s)"
  shows "descend_loop_thr inner rec' iter n j s = keeps n (descend_loop inner rec iter n j s)"
proof (induction j arbitrary: s)
  case 0
  then show ?case by simp
next
  case (Suc j)
  then show ?case
    by (auto simp: assms put_same split: option.splits prod.splits bool.splits)
qed

lemma descend_thr_keeps: "descend_thr p iter n h s = keeps n (descend_node p iter n h s)"
proof (induction h arbitrary: n s)
  case 0
  have l: "descend_loop_thr False (\<lambda>c s. None) iter n j s' =
        keeps n (descend_loop False (\<lambda>c s. None) iter n j s')" for j s' n
    by (rule descend_loop_thr_keeps) simp
  show ?case
    by (auto simp: l simp del: descend_loop_thr.simps descend_loop.simps split: prod.splits bool.splits)
next
  case (Suc h)
  have l: "descend_loop_thr True (\<lambda>c. reverse_thr iter c h) iter n j s' =
        keeps n (descend_loop True (\<lambda>c. reverse_node iter c h) iter n j s')" for j s' n
    by (rule descend_loop_thr_keeps) (simp add: reverse_thr_keeps)
  show ?case
    using Suc
    by (auto simp: l put_same simp del: descend_loop_thr.simps descend_loop.simps
             split: option.splits prod.splits bool.splits)
qed

lemma getOrNearest_thr_keeps:
  fixes n :: "'v node"
  shows "getOrNearest_thr n k h = keeps n (getOrNearest_node n k h)"
proof (induction h arbitrary: n)
  case 0
  then show ?case by (simp split: prod.splits bool.splits)
next
  case (Suc h)
  show ?case
  proof (cases h)
    case 0
    then show ?thesis by (simp split: prod.splits bool.splits option.splits)
  next
    case (Suc h')
    have ih: "getOrNearest_thr c k (Suc h') = keeps c (getOrNearest_node c k (Suc h'))"
      for c :: "'v node"
      using Suc.IH [of c] Suc by simp
    show ?thesis
      unfolding Suc
      by (auto simp: ih put_same split: prod.splits bool.splits option.splits)
  qed
qed

lemma on_root_keeps:
  assumes "\<And>r h. m' r h = keeps r (m r h)"
  shows "on_root tr dflt m' res =
         keeps tr (case root tr of None \<Rightarrow> Some dflt | Some r \<Rightarrow> map_option res (m r (height tr)))"
proof (cases "root tr")
  case None
  then show ?thesis by (simp add: on_root_def)
next
  case (Some r)
  then have "tr\<lparr>root := Some r\<rparr> = tr" by simp
  with Some show ?thesis
    by (cases "m r (height tr)") (simp_all add: on_root_def assms)
qed

lemma Get_thr_keeps: "Get_thr tr k = keeps tr (Get tr k)"
  unfolding Get_thr_def Get_def
  by (subst on_root_keeps [where m = "\<lambda>r h. get_node r k h"])
     (auto simp: get_thr_keeps option.map_ident split: option.splits)

lemma Scan_thr_keeps: "Scan_thr tr iter s = keeps tr (Scan tr iter s)"
  unfolding Scan_thr_def Scan_def
  by (subst on_root_keeps [where m = "\<lambda>r h. scan_node iter r h s"])
     (auto simp: scan_thr_keeps split: option.splits)

lemma Reverse_thr_keeps: "Reverse_thr tr iter s = keeps tr (Reverse tr iter s)"
  unfolding Reverse_thr_def Reverse_def
  by (subst on_root_keeps [where m = "\<lambda>r h. reverse_node iter r h s"])
     (auto simp: reverse_thr_keeps split: option.splits)

lemma Ascend_thr_keeps: "Ascend_thr tr p iter s = keeps tr (Ascend tr p iter s)"
  unfolding Ascend_thr_def Ascend_def
  by (subst on_root_keeps [where m = "\<lambda>r h. ascend_node p iter r h s"])
     (auto simp: ascend_thr_keeps split: option.splits)

lemma Descend_thr_keeps: "Descend_thr tr p iter s = keeps tr (Descend tr p iter s)"
  unfolding Descend_thr_def Descend_def
  by (subst on_root_keeps [where m = "\<lambda>r h. descend_node p iter r h s"])
     (auto simp: descend_thr_keeps split: option.splits)

lemma GreaterOrEqual_thr_keeps:
  "GreaterOrEqual_thr tr p iter s = keeps tr (GreaterOrEqual tr p iter s)"
  unfolding GreaterOrEqual_thr_def GreaterOrEqual_def
  by (subst on_root_keeps [where m = "\<lambda>r h. ascend_node p iter r h s"])
     (auto simp: ascend_thr_keeps split: option.splits)

lemma LessOrEqual_thr_keeps:
  "LessOrEqual_thr tr p iter s = keeps tr (LessOrEqual tr p iter s)"
  unfolding LessOrEqual_thr_def LessOrEqual_def
  by (subst on_root_keeps [where m = "\<lambda>r h. descend_node p iter r h s"])
     (auto simp: descend_thr_keeps split: option.splits)

lemma Next_thr_keeps: "Next_thr tr p = keeps tr (Next tr p)"
  unfolding Next_thr_def Next_def GreaterOrEqual_thr_keeps
  by (cases "GreaterOrEqual tr p second_iter (0, 0, None)") simp_all

lemma Prev_thr_keeps: "Prev_thr tr p = keeps tr (Prev tr p)"
  unfolding Prev_thr_def Prev_def LessOrEqual_thr_keeps
  by (cases "LessOrEqual tr p second_iter (0, 0, None)") simp_all

lemma GetOrNearest_thr_keeps: "GetOrNearest_thr tr k = keeps tr (GetOrNearest tr k)"
  unfolding GetOrNearest_thr_def GetOrNearest_def
  by (subst on_root_keeps [where m = "\<lambda>r h. getOrNearest_node r k h"])
     (auto simp: getOrNearest_thr_keeps option.map_ident split: option.splits)

lemma keeps_same: "keeps t res = Some (r, t') \<Longrightarrow> t' = t"
  by (cases res) simp_all

section \<open>What GetOrNearest returns\<close>

lemma floor_of_split:
  "\<forall>a \<in> set A. key a \<le> k \<Longrightarrow> \<forall>c \<in> set C. k < key c \<Longrightarrow>
   floor_of (A @ C) k = (if A = [] then None else Some (pair_of (last A)))"
  unfolding floor_of_def by (subst filter_le_take) (auto simp: Let_def)

lemma floor_of_below:
  assumes "\<forall>a \<in> set A. key a < k"
  shows "floor_of (A @ B) k =
         (case floor_of B k of
            None \<Rightarrow> if A = [] then None else Some (pair_of (last A))
          | Some p \<Rightarrow> Some p)"
proof -
  have "filter (\<lambda>x. key x \<le> k) A = A"
    using assms by (auto simp: filter_id_conv intro: less_imp_le)
  then show ?thesis by (simp add: floor_of_def Let_def)
qed

lemma floor_of_above:
  "\<forall>c \<in> set C. k < key c \<Longrightarrow> floor_of (B @ C) k = floor_of B k"
proof -
  assume "\<forall>c \<in> set C. k < key c"
  then have "filter (\<lambda>x. key x \<le> k) C = []" by (auto simp: filter_empty_conv)
  then show ?thesis by (simp add: floor_of_def Let_def)
qed

lemma floor_of_None: "floor_of xs k = None \<longleftrightarrow> (\<forall>x \<in> set xs. k < key x)"
  by (auto simp: floor_of_def Let_def filter_empty_conv not_le)

lemma last_lead: "length cs = length xs \<Longrightarrow> xs \<noteq> [] \<Longrightarrow> last (lead cs xs) = last xs"
proof (induction cs xs rule: lead.induct)
  case (1 c cs x xs)
  then show ?case by (cases xs; cases cs) auto
qed simp_all

lemma lead_Nil_iff: "length cs = length xs \<Longrightarrow> lead cs xs = [] \<longleftrightarrow> xs = []"
  by (cases cs; cases xs) auto

text \<open>\<open>getOrNearest\<close> on a leaf: the floor entry, and no return when there is none.\<close>

lemma getOrNearest_leaf:
  assumes "ksorted (items n)"
  shows "getOrNearest_node n k 0 = floor_of (items n) k"
proof -
  obtain xs cs where n: "n = Node xs cs" by (cases n)
  with assms have sx: "ksorted xs" by simp
  obtain i b where f: "find_node n k = (i, b)" by (cases "find_node n k")
  show ?thesis
  proof (cases b)
    case True
    from find_node_found [of n k i] find_node_found_sorted [of n k i] f True n sx
    have i: "i < length xs" "key (xs ! i) = k" "\<forall>x \<in> set (take i xs). key x < k"
      "\<forall>x \<in> set (drop (Suc i) xs). k < key x" by auto
    have t: "take (Suc i) xs = take i xs @ [xs ! i]" using i(1) by (simp add: take_Suc_conv_app_nth)
    then have "\<forall>a \<in> set (take (Suc i) xs). key a \<le> k" using i by auto
    from floor_of_split [OF this i(4)] t
    have "floor_of (take (Suc i) xs @ drop (Suc i) xs) k = Some (pair_of (xs ! i))" by simp
    then have "floor_of xs k = Some (pair_of (xs ! i))" by (simp only: append_take_drop_id)
    then show ?thesis using f True n by (simp add: pair_of_def)
  next
    case False
    from find_node_not_found [of n k i] f False n sx
    have i: "i \<le> length xs" "\<forall>x \<in> set (take i xs). key x < k" "\<forall>x \<in> set (drop i xs). k < key x"
      by auto
    then have "\<forall>a \<in> set (take i xs). key a \<le> k" by auto
    from floor_of_split [OF this i(3)]
    have fl: "floor_of xs k = (if take i xs = [] then None else Some (pair_of (last (take i xs))))"
      by (simp only: append_take_drop_id)
    show ?thesis
    proof (cases i)
      case 0
      then show ?thesis using f False n fl by simp
    next
      case (Suc j)
      then have "take i xs = take j xs @ [xs ! j]" using i(1) by (simp add: take_Suc_conv_app_nth)
      then show ?thesis using f False n fl Suc by (simp add: pair_of_def)
    qed
  qed
qed

text \<open>
  \<open>getOrNearest\<close> on a node one level above the leaves: the floor entry, and the zero key
  and value when there is none.
\<close>

lemma getOrNearest_above_leaves:
  assumes "shape (Suc 0) n" "ksorted (inorder (Suc 0) n)"
  shows "getOrNearest_node n k (Suc 0) =
         Some (case floor_of (inorder (Suc 0) n) k of None \<Rightarrow> (0, None) | Some p \<Rightarrow> p)"
proof -
  obtain xs cs where n: "n = Node xs cs" by (cases n)
  with assms have lcs: "length cs = Suc (length xs)" by auto
  have sx: "ksorted xs" using ksorted_inorder_items [OF assms] n by simp
  obtain i b where f: "find_node n k = (i, b)" by (cases "find_node n k")
  show ?thesis
  proof (cases b)
    case True
    from find_node_found [of n k i] f True n
    have i: "i < length xs" "key (xs ! i) = k" by auto
    obtain xs1 x xs2 cs1 l r cs2 where d:
      "xs = xs1 @ x # xs2" "cs = cs1 @ l # r # cs2" "length xs1 = i" "length cs1 = i"
      "length cs2 = length xs2"
      using around_item [OF i(1) lcs] by blast
    have x: "key x = k" "xs ! i = x" using d i by auto
    define A where "A = lead (map (inorder 0) cs1) xs1 @ inorder 0 l @ [x]"
    define C where "C = inorder 0 r @ glue xs2 (map (inorder 0) cs2)"
    have io: "inorder (Suc 0) n = A @ C"
      using inorder_pair [of cs1 xs1 0 x xs2 l r cs2] n d by (simp add: A_def C_def)
    have "ksorted (A @ C)" using assms(2) io by simp
    then have "\<forall>a \<in> set A. key a \<le> k" "\<forall>c \<in> set C. k < key c"
      using x by (auto simp: ksorted_append ksorted_Cons A_def intro: less_imp_le)
    from floor_of_split [OF this]
    have "floor_of (A @ C) k = Some (pair_of x)" by (simp add: A_def)
    then have "floor_of (inorder (Suc 0) n) k = Some (pair_of x)" by (simp only: io)
    then show ?thesis using f True n x by (simp add: pair_of_def)
  next
    case False
    from find_node_not_found [of n k i] f False n sx
    have i: "i \<le> length xs" "\<forall>x \<in> set (take i xs). key x < k" "\<forall>x \<in> set (drop i xs). k < key x"
      by auto
    obtain xs1 xs2 cs1 c cs2 where d:
      "xs = xs1 @ xs2" "cs = cs1 @ c # cs2" "length xs1 = i" "length cs1 = i"
      "length cs2 = length xs2"
      using around_child [OF i(1) lcs] by blast
    define A where "A = lead (map (inorder 0) cs1) xs1"
    define C where "C = glue xs2 (map (inorder 0) cs2)"
    have io: "inorder (Suc 0) n = A @ items c @ C"
      using inorder_mid [of cs1 xs1 0 xs2 c cs2] n d by (simp add: A_def C_def)
    have sorted: "ksorted (A @ items c @ C)" using assms(2) io by simp
    have below: "\<forall>a \<in> set A. key a < k"
      unfolding A_def using sorted i(2) d by (intro lead_below) (auto simp: ksorted_append A_def)
    have above: "\<forall>a \<in> set C. k < key a"
      unfolding C_def using sorted i(3) d by (intro glue_above) (auto simp: ksorted_append C_def)
    have fl: "floor_of (inorder (Suc 0) n) k =
              (case floor_of (items c) k of
                 None \<Rightarrow> if A = [] then None else Some (pair_of (last A))
               | Some p \<Rightarrow> Some p)"
      unfolding io using floor_of_below [OF below, of "items c @ C"] floor_of_above [OF above, of "items c"]
      by simp
    have ch: "child n i = Some c" using n d by (simp add: child_def nth_append)
    have sc: "ksorted (items c)" using sorted by (auto simp: ksorted_append)
    have A: "A = [] \<longleftrightarrow> i = 0" "i > 0 \<Longrightarrow> last A = xs ! (i - 1)"
    proof -
      show "A = [] \<longleftrightarrow> i = 0" unfolding A_def using d by (subst lead_Nil_iff) auto
      assume "i > 0"
      then have "xs1 \<noteq> []" using d by auto
      then have "last A = last xs1" unfolding A_def using d by (intro last_lead) auto
      also have "\<dots> = xs ! (i - 1)"
        using d \<open>xs1 \<noteq> []\<close> \<open>i > 0\<close> by (simp add: last_conv_nth nth_append)
      finally show "last A = xs ! (i - 1)" .
    qed
    have leaf: "getOrNearest_node c k 0 = floor_of (items c) k" using sc by (rule getOrNearest_leaf)
    obtain ci cb where fc: "find_node c k = (ci, cb)" by (cases "find_node c k")
    have fc': "floor_of (items c) k =
               (if cb then Some (key (items c ! ci), val (items c ! ci))
                else if ci > 0 then Some (key (items c ! (ci - 1)), val (items c ! (ci - 1)))
                else None)"
      using leaf [symmetric] fc by (cases cb) simp_all
    have lhs: "getOrNearest_node n k (Suc 0) =
               (if cb then Some (key (items c ! ci), val (items c ! ci))
                else if ci > 0 then Some (key (items c ! (ci - 1)), val (items c ! (ci - 1)))
                else if i > 0 then Some (key (items n ! (i - 1)), val (items n ! (i - 1)))
                else Some (0, None))"
      using f False ch fc by (cases cb) simp_all
    show ?thesis
      unfolding lhs fl fc' using A n by (auto simp: pair_of_def)
  qed
qed

text \<open>Above the leaves \<open>getOrNearest\<close> always returns.\<close>

lemma getOrNearest_node_returns:
  "shape (Suc h) n \<Longrightarrow> ksorted (inorder (Suc h) n) \<Longrightarrow> getOrNearest_node n k (Suc h) \<noteq> None"
proof (induction h arbitrary: n)
  case 0
  from getOrNearest_above_leaves [OF this, of k] show ?case
    by (simp del: getOrNearest_node.simps)
next
  case (Suc h)
  obtain xs cs where n: "n = Node xs cs" by (cases n)
  with Suc.prems have lcs: "length cs = Suc (length xs)"
    and kids: "\<forall>c \<in> set cs. shape (Suc h) c" by auto
  have sx: "ksorted xs" using ksorted_inorder_items [OF Suc.prems] n by simp
  obtain i b where f: "find_node n k = (i, b)" by (cases "find_node n k")
  show ?case
  proof (cases b)
    case True
    then show ?thesis using f by simp
  next
    case False
    from find_node_not_found [of n k i] f False n sx
    have i: "i \<le> length xs" by auto
    obtain xs1 xs2 cs1 c cs2 where d:
      "xs = xs1 @ xs2" "cs = cs1 @ c # cs2" "length xs1 = i" "length cs1 = i"
      "length cs2 = length xs2"
      using around_child [OF i lcs] by blast
    have io: "inorder (Suc (Suc h)) n =
              lead (map (inorder (Suc h)) cs1) xs1 @ inorder (Suc h) c @ glue xs2 (map (inorder (Suc h)) cs2)"
      using inorder_mid [of cs1 xs1 "Suc h" xs2 c cs2] n d by simp
    have ch: "child n i = Some c" using n d by (simp add: child_def nth_append)
    have "ksorted (inorder (Suc h) c)" "shape (Suc h) c"
      using Suc.prems(2) kids d unfolding io by (auto simp: ksorted_append)
    from Suc.IH [OF this(2,1)] show ?thesis using f False ch by simp
  qed
qed

lemma GetOrNearest_low:
  assumes "tree_inv tr" "height tr \<le> 1"
  shows "GetOrNearest tr k =
         (case floor_of (entries tr) k of
            None \<Rightarrow> if height tr = 0 \<and> root tr \<noteq> None then None else Some (0, None)
          | Some p \<Rightarrow> Some p)"
proof (cases "root tr")
  case None
  then show ?thesis by (simp add: GetOrNearest_def entries_def floor_of_def)
next
  case (Some r)
  with assms(1) have r: "shape (height tr) r" "ksorted (inorder (height tr) r)"
    by (auto simp: tree_inv_def)
  from assms(2) consider "height tr = 0" | "height tr = Suc 0" by linarith
  then show ?thesis
  proof cases
    case 1
    with r have "ksorted (items r)" by simp
    from getOrNearest_leaf [OF this, of k] show ?thesis
      using Some 1 by (simp add: GetOrNearest_def entries_def split: option.splits)
  next
    case 2
    with r getOrNearest_above_leaves [of r k] show ?thesis
      using Some by (simp add: GetOrNearest_def entries_def split: option.splits)
  qed
qed

lemma GetOrNearest_None:
  assumes "tree_inv tr"
  shows "GetOrNearest tr k = None \<longleftrightarrow>
         height tr = 0 \<and> root tr \<noteq> None \<and> (\<forall>x \<in> set (entries tr). k < key x)"
proof (cases "root tr")
  case None
  then show ?thesis by (simp add: GetOrNearest_def)
next
  case (Some r)
  with assms(1) have r: "shape (height tr) r" "ksorted (inorder (height tr) r)"
    by (auto simp: tree_inv_def)
  show ?thesis
  proof (cases "height tr")
    case 0
    with r have "ksorted (items r)" by simp
    from getOrNearest_leaf [OF this, of k] show ?thesis
      using Some 0 by (simp add: GetOrNearest_def entries_def floor_of_None)
  next
    case (Suc h)
    with r getOrNearest_node_returns [of h r k] show ?thesis
      using Some by (simp add: GetOrNearest_def)
  qed
qed


text \<open>
  On every tree built from the empty tree, \<open>GetOrNearest\<close> fails to return exactly when
  the root is a leaf and every key of the tree is above the key asked for.
\<close>

lemma getOrNearest_returns_unless:
  "\<exists>tr. apply_ops empty_tree ops = Some tr \<and>
     (GetOrNearest tr k = None \<longleftrightarrow>
        height tr = 0 \<and> root tr \<noteq> None \<and> (\<forall>x \<in> tree_keys tr. k < x))"
proof -
  from reachable_ok [of ops] obtain tr where
    tr: "apply_ops empty_tree ops = Some tr" "tree_inv tr" by blast
  have "(\<forall>x \<in> set (entries tr). k < key x) \<longleftrightarrow> (\<forall>x \<in> tree_keys tr. k < x)"
    unfolding tree_inv_keys [OF tr(2), symmetric] by blast
  with GetOrNearest_None [OF tr(2), of k] tr(1) show ?thesis by auto
qed

text \<open>
  On every tree built from the empty tree whose height is at most 1, \<open>GetOrNearest\<close>
  returns the entry with the greatest key at or below the key asked for, among the
  entries that \<open>Scan\<close> yields; when there is none it returns the zero key and value at
  height 1 and on the empty tree, and does not return on a root that is a leaf.
\<close>

lemma getOrNearest_low_trees:
  "\<exists>tr. apply_ops empty_tree ops = Some tr \<and>
     Scan tr collect [] = Some (map pair_of (entries tr)) \<and>
     (height tr \<le> 1 \<longrightarrow>
        GetOrNearest tr k =
          (case floor_of (entries tr) k of
             None \<Rightarrow> if height tr = 0 \<and> root tr \<noteq> None then None else Some (0, None)
           | Some p \<Rightarrow> Some p))"
proof -
  from reachable_ok [of ops] obtain tr where
    tr: "apply_ops empty_tree ops = Some tr" "tree_inv tr" by blast
  from tr(1) Scan_collect [OF tr(2)] GetOrNearest_low [OF tr(2), of k] show ?thesis by blast
qed

text \<open>
  The tree and the keys of the test of \<open>GetOrNearest\<close>: the even keys 0 to 198 set in
  increasing order give a tree of height 1, and the ten answers are the expected ones.
\<close>

lemma nearest_on_even_keys:
  "map_option (\<lambda>tr. (height tr, nearest_all tr [0, 1, 2, 3, 61, 62, 63, 197, 199, 202]))
     (apply_ops empty_tree (map (\<lambda>i. SetOp (2 * i) (Some (2 * i))) [0..99])) =
   Some (1, map (\<lambda>k. Some (k, Some k)) [0, 0, 2, 2, 60, 62, 62, 196, 198, 198])"
  by code_simp

text \<open>
  Every other public operation returns on every tree built from the empty tree, for
  every argument and every visitor.
\<close>

lemma other_operations_return:
  "\<exists>tr. apply_ops empty_tree ops = Some tr \<and>
     Set tr k v \<noteq> None \<and> Delete tr k \<noteq> None \<and> Get tr k \<noteq> None \<and>
     Scan tr f s \<noteq> None \<and> Reverse tr f s \<noteq> None \<and>
     Ascend tr p f s \<noteq> None \<and> Descend tr p f s \<noteq> None \<and>
     GreaterOrEqual tr p f s \<noteq> None \<and> LessOrEqual tr p f s \<noteq> None \<and>
     Next tr p \<noteq> None \<and> Prev tr p \<noteq> None"
proof -
  from reachable_ok [of ops] obtain tr where
    tr: "apply_ops empty_tree ops = Some tr" "tree_inv tr" by blast
  have "Set tr k v \<noteq> None" using Set_ok [OF tr(2), of k v] by auto
  moreover have "Delete tr k \<noteq> None" using Delete_ok [OF tr(2), of k] by auto
  moreover have "Get tr k \<noteq> None" by (simp add: Get_lookup [OF tr(2)])
  moreover have "Scan tr f s \<noteq> None" by (simp add: Scan_visit [OF tr(2)])
  moreover have "Reverse tr f s \<noteq> None" by (simp add: Reverse_visit [OF tr(2)])
  moreover have "Ascend tr p f s \<noteq> None" by (simp add: Ascend_visit [OF tr(2)])
  moreover have "Descend tr p f s \<noteq> None" by (simp add: Descend_visit [OF tr(2)])
  moreover have "GreaterOrEqual tr p f s \<noteq> None"
    by (simp add: GreaterOrEqual_Ascend Ascend_visit [OF tr(2)])
  moreover have "LessOrEqual tr p f s \<noteq> None"
    by (simp add: LessOrEqual_Descend Descend_visit [OF tr(2)])
  moreover have "Next tr p \<noteq> None"
    by (simp add: Next_def GreaterOrEqual_Ascend Ascend_visit [OF tr(2)])
  moreover have "Prev tr p \<noteq> None"
    by (simp add: Prev_def LessOrEqual_Descend Descend_visit [OF tr(2)])
  ultimately show ?thesis using tr(1) by blast
qed

section \<open>GetOrNearest on concrete trees\<close>

text \<open>
  C1. \<open>GetOrNearest\<close> is meant to return the entry with the greatest key at or below
  the query. In the tree \<open>ex_tree\<close> of height 2 the key 510 is present (in the root) and
  is the greatest key below 511, yet \<open>GetOrNearest(511)\<close> returns the zero key and the
  nil value: the call descends into the right child of the root, and there, at height 1,
  only that node's own items and its leaf are considered.
\<close>

theorem getOrNearest_loses_ancestor:
  "Get ex_tree 510 = Some (Some 510, True) \<and> Get ex_tree 511 = Some (None, False) \<and>
   Get ex_tree 512 = Some (Some 512, True) \<and> GetOrNearest ex_tree 511 = Some (0, None)"
  by code_simp

text \<open>
  C2. After \<open>Set(5, 5)\<close> on the empty tree the root is a leaf holding the key 5.
  \<open>GetOrNearest(3)\<close> finds no key at or below 3 and, at height 0, goes on to
  dereference the leaf's nil child pointer: the call panics instead of returning the zero
  key and value.
\<close>

theorem getOrNearest_leaf_panics:
  "Set (empty_tree :: int BTree) 5 (Some 5) =
     Some (\<lparr>height = 0, root = Some (Node [Item 5 (Some 5)] []), len = 1\<rparr>, None, False) \<and>
   GetOrNearest \<lparr>height = 0, root = Some (Node [Item 5 (Some 5)] []), len = 1\<rparr> 3 = None"
  by code_simp

section \<open>The structural invariants\<close>



section \<open>Set, Get and Delete\<close>

text \<open>
  C4. On every tree that a sequence of \<open>Set\<close> and \<open>Delete\<close> calls builds from the empty
  tree, and for every key \<open>k\<close> and value \<open>v\<close>: \<open>Set(k, v)\<close> returns, \<open>Get(k)\<close> on the
  result returns \<open>(v, true)\<close>, a following \<open>Delete(k)\<close> returns \<open>(v, true)\<close>, and
  \<open>Get(k)\<close> after it returns the nil value and \<open>false\<close>.
\<close>

theorem set_get_delete_get:
  "\<exists>tr tr1 prev replaced tr2.
     apply_ops empty_tree ops = Some tr \<and> Set tr k v = Some (tr1, prev, replaced) \<and>
     Get tr1 k = Some (v, True) \<and> Delete tr1 k = Some (tr2, v, True) \<and>
     Get tr2 k = Some (None, False)"
proof -
  from reachable_ok [of ops] obtain tr where
    tr: "apply_ops empty_tree ops = Some tr" "tree_inv tr" by blast
  from Set_ok [OF tr(2), of k v] obtain tr1 prev replaced where
    s: "Set tr k v = Some (tr1, prev, replaced)" "tree_inv tr1"
       "entries tr1 = upd_list k v (entries tr)" by blast
  have l1: "lookup (entries tr1) k = Some v"
    using s(3) tree_inv_sorted [OF tr(2)] by (simp add: lookup_upd_list)
  have g1: "Get tr1 k = Some (v, True)" using Get_lookup [OF s(2), of k] l1 by simp
  have "k \<in> key ` set (entries tr1)" using s(3) keys_upd_list [of k v "entries tr"] by simp
  with Delete_ok [OF s(2), of k] l1 obtain tr2 where
    d: "Delete tr1 k = Some (tr2, v, True)" "tree_inv tr2"
       "entries tr2 = del_list k (entries tr1)" by auto
  have "lookup (entries tr2) k = None"
    using d(3) tree_inv_sorted [OF s(2)] by (simp add: lookup_del_list)
  then have "Get tr2 k = Some (None, False)" using Get_lookup [OF d(2), of k] by simp
  with tr(1) s(1) g1 d(1) show ?thesis by blast
qed

section \<open>Scan and Reverse\<close>

text \<open>
  C5. On every tree that a sequence of \<open>Set\<close> and \<open>Delete\<close> calls builds from the empty
  tree, \<open>Scan\<close> with a visitor that always continues calls it with the keys in strictly
  increasing order, once for each item slot in use in the tree (the pairs passed are
  those stored in the nodes, and there are as many calls as slots in use), and these are
  the entries of the map that the operations describe; \<open>Reverse\<close> makes the same calls
  in the reverse order, so with strictly decreasing keys.
\<close>

theorem scan_reverse_order:
  assumes "always_continue f"
  shows "\<exists>tr es.
     apply_ops empty_tree ops = Some tr \<and>
     calls_of (Scan tr) f s = Some es \<and> calls_of (Reverse tr) f s = Some (rev es) \<and>
     sorted_wrt (<) (map fst es) \<and> sorted_wrt (>) (map fst (rev es)) \<and>
     set es = pair_of ` tree_items tr \<and> length es = tree_count tr \<and>
     map_of es = ref_ops ops"
proof -
  from reachable_ok [of ops] obtain tr where
    tr: "apply_ops empty_tree ops = Some tr" "tree_inv tr" "lookup (entries tr) = ref_ops ops"
    by blast
  define es where "es = map pair_of (entries tr)"
  have sc: "calls_of (Scan tr) f s = Some es"
    unfolding es_def using Scan_visit [OF tr(2)] assms by (intro calls_of_visit) auto
  have rv: "calls_of (Reverse tr) f s = Some (rev es)"
    unfolding es_def rev_map using Reverse_visit [OF tr(2)] assms by (intro calls_of_visit) auto
  have up: "sorted_wrt (<) (map fst es)"
    unfolding es_def using tree_inv_sorted [OF tr(2)] by (rule sorted_pairs)
  then have down: "sorted_wrt (>) (map fst (rev es))"
    by (simp add: rev_map [symmetric] sorted_wrt_rev)
  have st: "set es = pair_of ` tree_items tr"
    using tree_inv_items [OF tr(2)] by (simp add: es_def)
  have ln: "length es = tree_count tr"
    using tree_inv_count [OF tr(2)] by (simp add: es_def)
  have mp: "map_of es = ref_ops ops"
    using tr(3) lookup_map_of [of "entries tr"] by (auto simp: es_def fun_eq_iff)
  from tr(1) sc rv up down st ln mp show ?thesis by blast
qed

theorem scan_reverse_order_witness:
  "\<exists>tr es.
     apply_ops (empty_tree :: int BTree) [SetOp 2 (Some 20), SetOp 1 (Some 10), DeleteOp 2] = Some tr \<and>
     calls_of (Scan tr) (\<lambda>k v (s :: nat). (True, s + 1)) 0 = Some es \<and>
     calls_of (Reverse tr) (\<lambda>k v (s :: nat). (True, s + 1)) 0 = Some (rev es) \<and>
     sorted_wrt (<) (map fst es) \<and> sorted_wrt (>) (map fst (rev es)) \<and>
     set es = pair_of ` tree_items tr \<and> length es = tree_count tr \<and>
     map_of es = ref_ops [SetOp 2 (Some 20), SetOp 1 (Some 10), DeleteOp 2]"
  by (rule scan_reverse_order) (simp add: always_continue_def)

section \<open>Len\<close>


section \<open>Ascend and Descend\<close>

text \<open>
  C7. On every tree that a sequence of \<open>Set\<close> and \<open>Delete\<close> calls builds from the empty
  tree, with a visitor that always continues and \<open>es\<close> the strictly increasing list of
  entries that \<open>Scan\<close> passes to it: \<open>Ascend(p, v)\<close> and \<open>GreaterOrEqual(p, v)\<close> call the
  visitor with the entries of \<open>es\<close> whose key is at least \<open>p\<close>, each once and in the
  order of \<open>es\<close>; \<open>Descend(p, v)\<close> and \<open>LessOrEqual(p, v)\<close> call it with the entries whose
  key is at most \<open>p\<close>, each once and in the reverse order. When every key is below \<open>p\<close>,
  in particular in the empty tree, \<open>Ascend\<close> does not call the visitor.
\<close>

theorem pivot_walks:
  assumes "always_continue f"
  shows "\<exists>tr es.
     apply_ops empty_tree ops = Some tr \<and>
     calls_of (Scan tr) f s = Some es \<and> sorted_wrt (<) (map fst es) \<and>
     calls_of (Ascend tr p) f s = Some (filter (\<lambda>e. p \<le> fst e) es) \<and>
     calls_of (GreaterOrEqual tr p) f s = Some (filter (\<lambda>e. p \<le> fst e) es) \<and>
     calls_of (Descend tr p) f s = Some (rev (filter (\<lambda>e. fst e \<le> p) es)) \<and>
     calls_of (LessOrEqual tr p) f s = Some (rev (filter (\<lambda>e. fst e \<le> p) es)) \<and>
     ((\<forall>e \<in> set es. fst e < p) \<longrightarrow> calls_of (Ascend tr p) f s = Some [])"
proof -
  from reachable_ok [of ops] obtain tr where
    tr: "apply_ops empty_tree ops = Some tr" "tree_inv tr" by blast
  define es where "es = map pair_of (entries tr)"
  have sc: "calls_of (Scan tr) f s = Some es"
    unfolding es_def using Scan_visit [OF tr(2)] assms by (intro calls_of_visit) auto
  have up: "sorted_wrt (<) (map fst es)"
    unfolding es_def using tree_inv_sorted [OF tr(2)] by (rule sorted_pairs)
  have a: "calls_of (Ascend tr p) f s = Some (filter (\<lambda>e. p \<le> fst e) es)"
    unfolding es_def filter_pairs_ge
    using Ascend_visit [OF tr(2)] assms by (intro calls_of_visit) auto
  have g: "calls_of (GreaterOrEqual tr p) f s = Some (filter (\<lambda>e. p \<le> fst e) es)"
    unfolding es_def filter_pairs_ge
    using Ascend_visit [OF tr(2)] assms
    by (intro calls_of_visit) (auto simp: GreaterOrEqual_Ascend)
  have d: "calls_of (Descend tr p) f s = Some (rev (filter (\<lambda>e. fst e \<le> p) es))"
    unfolding es_def filter_pairs_le rev_map
    using Descend_visit [OF tr(2)] assms by (intro calls_of_visit) auto
  have l: "calls_of (LessOrEqual tr p) f s = Some (rev (filter (\<lambda>e. fst e \<le> p) es))"
    unfolding es_def filter_pairs_le rev_map
    using Descend_visit [OF tr(2)] assms
    by (intro calls_of_visit) (auto simp: LessOrEqual_Descend)
  have "filter (\<lambda>e. p \<le> fst e) es = []" if "\<forall>e \<in> set es. fst e < p"
    using that by (auto simp: filter_empty_conv)
  then have n: "(\<forall>e \<in> set es. fst e < p) \<longrightarrow> calls_of (Ascend tr p) f s = Some []"
    using a by simp
  from tr(1) sc up a g d l n show ?thesis by blast
qed

theorem pivot_walks_witness:
  "\<exists>tr es.
     apply_ops (empty_tree :: int BTree) [SetOp 0 (Some 0), SetOp 10 (Some 1), SetOp 20 (Some 2)] = Some tr \<and>
     calls_of (Scan tr) (\<lambda>k v (s :: nat). (True, s + 1)) 0 = Some es \<and>
     sorted_wrt (<) (map fst es) \<and>
     calls_of (Ascend tr 5) (\<lambda>k v (s :: nat). (True, s + 1)) 0 = Some (filter (\<lambda>e. 5 \<le> fst e) es) \<and>
     calls_of (Descend tr 5) (\<lambda>k v (s :: nat). (True, s + 1)) 0 = Some (rev (filter (\<lambda>e. fst e \<le> 5) es))"
proof -
  have "always_continue (\<lambda>k (v :: int option) (s :: nat). (True, s + 1))"
    by (simp add: always_continue_def)
  from pivot_walks [OF this, of "[SetOp 0 (Some 0), SetOp 10 (Some 1), SetOp 20 (Some 2)]" 0 5]
  show ?thesis by blast
qed

section \<open>Deleting an absent key\<close>

text \<open>
  C8. On every tree that a sequence of \<open>Set\<close> and \<open>Delete\<close> calls builds from the empty
  tree: when no node of the tree holds the key \<open>k\<close>, \<open>Delete(k)\<close> returns the nil value
  and \<open>false\<close>, and the handle after the call, with every node under it, is the handle
  before the call.
\<close>

theorem delete_absent_unchanged:
  "\<exists>tr. apply_ops empty_tree ops = Some tr \<and>
        (k \<notin> tree_keys tr \<longrightarrow> Delete tr k = Some (tr, None, False))"
proof -
  from reachable_ok [of ops] obtain tr where
    tr: "apply_ops empty_tree ops = Some tr" "tree_inv tr" by blast
  from Delete_ok [OF tr(2), of k] obtain tr' prev deleted where
    d: "Delete tr k = Some (tr', prev, deleted)" "deleted = (k \<in> key ` set (entries tr))"
       "prev = (case lookup (entries tr) k of None \<Rightarrow> None | Some w \<Rightarrow> w)"
       "\<not> deleted \<longrightarrow> tr' = tr" by blast
  have "Delete tr k = Some (tr, None, False)" if "k \<notin> tree_keys tr"
  proof -
    from that have nk: "k \<notin> key ` set (entries tr)" using tree_inv_keys [OF tr(2)] by simp
    then have "lookup (entries tr) k = None" by (rule lookup_None)
    with d nk show ?thesis by simp
  qed
  with tr(1) show ?thesis by blast
qed

theorem delete_absent_unchanged_witness:
  "\<exists>tr. apply_ops (empty_tree :: int BTree) [SetOp 1 (Some 10), SetOp 2 (Some 20)] = Some tr \<and>
        5 \<notin> tree_keys tr \<and> Delete tr 5 = Some (tr, None, False)"
proof -
  have run: "apply_ops (empty_tree :: int BTree) [SetOp 1 (Some 10), SetOp 2 (Some 20)] =
        Some \<lparr>height = 0, root = Some (Node [Item 1 (Some 10), Item 2 (Some 20)] []), len = 2\<rparr>"
    by code_simp
  have keys: "5 \<notin> tree_keys \<lparr>height = 0, root = Some (Node [Item 1 (Some 10), Item 2 (Some (20 :: int))] []), len = 2\<rparr>"
    by (simp add: tree_keys_def)
  from delete_absent_unchanged [of "[SetOp 1 (Some 10), SetOp 2 (Some 20)] :: int op list" 5]
  show ?thesis using run keys by auto
qed

section \<open>Stopping a traversal\<close>

text \<open>
  C9. On every tree that a sequence of \<open>Set\<close> and \<open>Delete\<close> calls builds from the empty
  tree, for every visitor and each of \<open>Scan\<close>, \<open>Reverse\<close>, \<open>Ascend\<close>, \<open>Descend\<close>,
  \<open>GreaterOrEqual\<close> and \<open>LessOrEqual\<close>: in the list of the answers the visitor gave
  during the call, in the order of its invocations, \<open>false\<close> occurs at most as the last
  one. So after the visitor has returned false it is not invoked again, at whatever
  depth of the tree that happens.
\<close>

theorem stop_is_final:
  "\<exists>tr b1 b2 b3 b4 b5 b6.
     apply_ops empty_tree ops = Some tr \<and>
     answers_of (Scan tr) f s = Some b1 \<and> False \<notin> set (butlast b1) \<and>
     answers_of (Reverse tr) f s = Some b2 \<and> False \<notin> set (butlast b2) \<and>
     answers_of (Ascend tr p) f s = Some b3 \<and> False \<notin> set (butlast b3) \<and>
     answers_of (Descend tr p) f s = Some b4 \<and> False \<notin> set (butlast b4) \<and>
     answers_of (GreaterOrEqual tr p) f s = Some b5 \<and> False \<notin> set (butlast b5) \<and>
     answers_of (LessOrEqual tr p) f s = Some b6 \<and> False \<notin> set (butlast b6)"
proof -
  from reachable_ok [of ops] obtain tr where
    tr: "apply_ops empty_tree ops = Some tr" "tree_inv tr" by blast
  have "\<exists>bs. answers_of (Scan tr) f s = Some bs \<and> False \<notin> set (butlast bs)"
    by (rule answers_of_visit) (rule Scan_visit [OF tr(2)])
  then obtain b1 where b1: "answers_of (Scan tr) f s = Some b1" "False \<notin> set (butlast b1)"
    by blast
  have "\<exists>bs. answers_of (Reverse tr) f s = Some bs \<and> False \<notin> set (butlast bs)"
    by (rule answers_of_visit) (rule Reverse_visit [OF tr(2)])
  then obtain b2 where b2: "answers_of (Reverse tr) f s = Some b2" "False \<notin> set (butlast b2)"
    by blast
  have "\<exists>bs. answers_of (Ascend tr p) f s = Some bs \<and> False \<notin> set (butlast bs)"
    by (rule answers_of_visit) (rule Ascend_visit [OF tr(2)])
  then obtain b3 where b3: "answers_of (Ascend tr p) f s = Some b3" "False \<notin> set (butlast b3)"
    by blast
  have "\<exists>bs. answers_of (Descend tr p) f s = Some bs \<and> False \<notin> set (butlast bs)"
    by (rule answers_of_visit) (rule Descend_visit [OF tr(2)])
  then obtain b4 where b4: "answers_of (Descend tr p) f s = Some b4" "False \<notin> set (butlast b4)"
    by blast
  have b5: "answers_of (GreaterOrEqual tr p) f s = Some b3"
    using b3(1) by (simp add: answers_of_def GreaterOrEqual_Ascend)
  have b6: "answers_of (LessOrEqual tr p) f s = Some b4"
    using b4(1) by (simp add: answers_of_def LessOrEqual_Descend)
  from tr(1) b1 b2 b3 b4 b5 b6 show ?thesis by blast
qed

section \<open>The read-only methods leave the tree as it is\<close>

text \<open>
  C10. For every tree and every argument, and for a visitor that works on its own state
  only: whenever \<open>Get\<close>, \<open>Scan\<close>, \<open>Reverse\<close>, \<open>Ascend\<close>, \<open>Descend\<close>, \<open>GreaterOrEqual\<close>,
  \<open>LessOrEqual\<close>, \<open>Next\<close>, \<open>Prev\<close> or \<open>GetOrNearest\<close> returns, the handle after the call
  (its root with every node under it, its height and its length) is the handle before
  the call. The methods are taken in the model that passes every node through the call.
\<close>

theorem reads_keep_tree:
  "(\<forall>r t. Get_thr tr k = Some (r, t) \<longrightarrow> t = tr) \<and>
   (\<forall>r t. Scan_thr tr iter s = Some (r, t) \<longrightarrow> t = tr) \<and>
   (\<forall>r t. Reverse_thr tr iter s = Some (r, t) \<longrightarrow> t = tr) \<and>
   (\<forall>r t. Ascend_thr tr k iter s = Some (r, t) \<longrightarrow> t = tr) \<and>
   (\<forall>r t. Descend_thr tr k iter s = Some (r, t) \<longrightarrow> t = tr) \<and>
   (\<forall>r t. GreaterOrEqual_thr tr k iter s = Some (r, t) \<longrightarrow> t = tr) \<and>
   (\<forall>r t. LessOrEqual_thr tr k iter s = Some (r, t) \<longrightarrow> t = tr) \<and>
   (\<forall>r t. Next_thr tr k = Some (r, t) \<longrightarrow> t = tr) \<and>
   (\<forall>r t. Prev_thr tr k = Some (r, t) \<longrightarrow> t = tr) \<and>
   (\<forall>r t. GetOrNearest_thr tr k = Some (r, t) \<longrightarrow> t = tr)"
  unfolding Get_thr_keeps Scan_thr_keeps Reverse_thr_keeps Ascend_thr_keeps Descend_thr_keeps
    GreaterOrEqual_thr_keeps LessOrEqual_thr_keeps Next_thr_keeps Prev_thr_keeps
    GetOrNearest_thr_keeps
  by (blast dest: keeps_same)

theorem reads_keep_tree_witness:
  "(\<exists>r. Get_thr ex_tree 512 = Some (r, ex_tree)) \<and>
   (\<exists>r. Next_thr ex_tree 512 = Some (r, ex_tree)) \<and>
   (\<exists>r. Prev_thr ex_tree 512 = Some (r, ex_tree)) \<and>
   (\<exists>r. GetOrNearest_thr ex_tree 513 = Some (r, ex_tree))"
proof -
  have "Get ex_tree 512 = Some (Some 512, True)" by code_simp
  then obtain t1 where t1: "Get_thr ex_tree 512 = Some ((Some 512, True), t1)"
    by (simp add: Get_thr_keeps)
  have "Next ex_tree 512 = Some (514, Some 514)" by code_simp
  then obtain t2 where t2: "Next_thr ex_tree 512 = Some ((514, Some 514), t2)"
    by (simp add: Next_thr_keeps)
  have "Prev ex_tree 512 = Some (510, Some 510)" by code_simp
  then obtain t3 where t3: "Prev_thr ex_tree 512 = Some ((510, Some 510), t3)"
    by (simp add: Prev_thr_keeps)
  have "GetOrNearest ex_tree 513 = Some (512, Some 512)" by code_simp
  then obtain t4 where t4: "GetOrNearest_thr ex_tree 513 = Some ((512, Some 512), t4)"
    by (simp add: GetOrNearest_thr_keeps)
  from reads_keep_tree [of ex_tree 512 "\<lambda>k v (s :: unit). (True, s)" "()"] t1 t2 t3
  have "t1 = ex_tree" "t2 = ex_tree" "t3 = ex_tree" by blast+
  moreover from reads_keep_tree [of ex_tree 513 "\<lambda>k v (s :: unit). (True, s)" "()"] t4
  have "t4 = ex_tree" by blast
  ultimately show ?thesis using t1 t2 t3 t4 by blast
qed

end
